theory Spec2Isabelle
  imports Main "HOL-Library.Word"
begin

unbundle bit_operations_syntax

section \<open>GhostFS: the filesystem engine of fs.c\<close>

text \<open>
  A shallow embedding of \<^verbatim>\<open>fs.c\<close>. A \<^verbatim>\<open>struct cluster *\<close> is the index of the
  cache slot it points to (the cache holds one heap object per cluster number and never
  moves it), a \<^verbatim>\<open>struct dir_entry *\<close> is either the address of the in-memory root
  entry or a slot number inside a cached cluster. Every function takes the filesystem
  handle and returns it, updated, next to its result; a negative return code is
  \<open>Inl\<close> of the errno.
\<close>

subsection \<open>Constants and errors\<close>

definition CLUSTER_SIZE :: nat where "CLUSTER_SIZE = 4096"
definition CLUSTER_DATA :: nat where "CLUSTER_DATA = 4092"
definition CLUSTER_DIRENTS :: nat where "CLUSTER_DIRENTS = 66"
definition FILENAME_SIZE :: nat where "FILENAME_SIZE = 56"
definition FILESIZE_MAX :: int where "FILESIZE_MAX = 0x7FFFFFFF"

text \<open>\<^verbatim>\<open>sizeof(struct dir_entry)\<close> (packed: 56 + 4 + 2) and
  \<^verbatim>\<open>16 + sizeof(struct ghostfs_header)\<close>.\<close>

definition DIR_ENTRY_SIZE :: nat where "DIR_ENTRY_SIZE = 62"
definition HEADER_SIZE :: nat where "HEADER_SIZE = 18"

datatype errno =
  EINVAL | ENOENT | ENOTDIR | EISDIR | ENAMETOOLONG | EEXIST | ENOTEMPTY
  | ENOSPC | EFBIG | EOVERFLOW | ERANGE | EIO

type_synonym byte = "8 word"

subsection \<open>Little-endian fields of the packed structs\<close>

definition u16_of_bytes :: "byte list \<Rightarrow> 16 word" where
  "u16_of_bytes bs = ucast (bs ! 0) OR push_bit 8 (ucast (bs ! 1))"

definition bytes_of_u16 :: "16 word \<Rightarrow> byte list" where
  "bytes_of_u16 w = [ucast w, ucast (drop_bit 8 w)]"

definition u32_of_bytes :: "byte list \<Rightarrow> 32 word" where
  "u32_of_bytes bs = ucast (bs ! 0) OR push_bit 8 (ucast (bs ! 1))
     OR push_bit 16 (ucast (bs ! 2)) OR push_bit 24 (ucast (bs ! 3))"

definition bytes_of_u32 :: "32 word \<Rightarrow> byte list" where
  "bytes_of_u32 w = [ucast w, ucast (drop_bit 8 w), ucast (drop_bit 16 w), ucast (drop_bit 24 w)]"

subsection \<open>Clusters\<close>

text \<open>\<^verbatim>\<open>struct cluster\<close> with its \<^verbatim>\<open>struct cluster_header\<close> inlined: 4092 bytes of
  data, then next, used and the in-memory dirty byte.\<close>

record cluster =
  c_data :: "byte list"
  c_next :: "16 word"
  c_used :: byte
  c_dirty :: byte

definition cluster_of_bytes :: "byte list \<Rightarrow> cluster" where
  "cluster_of_bytes bs =
     \<lparr> c_data = take CLUSTER_DATA bs,
       c_next = u16_of_bytes (take 2 (drop CLUSTER_DATA bs)),
       c_used = bs ! (CLUSTER_DATA + 2),
       c_dirty = bs ! (CLUSTER_DATA + 3) \<rparr>"

definition bytes_of_cluster :: "cluster \<Rightarrow> byte list" where
  "bytes_of_cluster c = c_data c @ bytes_of_u16 (c_next c) @ [c_used c, c_dirty c]"

subsection \<open>Directory entries\<close>

record dir_entry =
  e_filename :: "byte list"
  e_size :: "32 word"
  e_cluster :: "16 word"

definition dir_entry_is_directory :: "dir_entry \<Rightarrow> bool" where
  "dir_entry_is_directory e = (e_size e AND 0x80000000 \<noteq> 0)"

definition dir_entry_used :: "dir_entry \<Rightarrow> bool" where
  "dir_entry_used e = (e_filename e ! 0 \<noteq> 0)"

text \<open>The entry stored in slot \<open>i\<close> of a cluster's data, and the data with slot \<open>i\<close>
  overwritten (the cast \<^verbatim>\<open>(struct dir_entry *)cluster->data\<close> plus pointer arithmetic).\<close>

definition dir_entry_at :: "byte list \<Rightarrow> nat \<Rightarrow> dir_entry" where
  "dir_entry_at d i =
     \<lparr> e_filename = take FILENAME_SIZE (drop (DIR_ENTRY_SIZE * i) d),
       e_size = u32_of_bytes (take 4 (drop (DIR_ENTRY_SIZE * i + FILENAME_SIZE) d)),
       e_cluster = u16_of_bytes (take 2 (drop (DIR_ENTRY_SIZE * i + FILENAME_SIZE + 4) d)) \<rparr>"

definition dir_entry_bytes :: "dir_entry \<Rightarrow> byte list" where
  "dir_entry_bytes e = e_filename e @ bytes_of_u32 (e_size e) @ bytes_of_u16 (e_cluster e)"

text \<open>\<^verbatim>\<open>memcpy(d + off, src, length src)\<close> on a byte array.\<close>

definition memcpy_at :: "byte list \<Rightarrow> nat \<Rightarrow> byte list \<Rightarrow> byte list" where
  "memcpy_at d off src = take off d @ src @ drop (off + length src) d"

subsection \<open>The filesystem handle\<close>

text \<open>\<^verbatim>\<open>struct ghostfs\<close>. The stegger is the logical byte stream of the carrier (see
  \<open>stegger_read\<close>); uid, gid and mount time are not modelled.\<close>

record ghostfs =
  hdr_cluster_count :: "16 word"
  stegger :: "byte list"
  clusters :: "nat \<Rightarrow> cluster option"
  root_entry :: dir_entry
  gfs_free_clusters :: "16 word"

datatype entry_ptr = RootEntry | ClusterEntry nat nat

record dir_iter =
  it_cluster :: nat
  it_entry :: entry_ptr
  it_entry_nr :: nat

text \<open>Dereferencing a cluster pointer and writing through it.\<close>

definition cl :: "ghostfs \<Rightarrow> nat \<Rightarrow> cluster" where
  "cl gfs p = the (clusters gfs p)"

definition upd_cluster :: "ghostfs \<Rightarrow> nat \<Rightarrow> (cluster \<Rightarrow> cluster) \<Rightarrow> ghostfs" where
  "upd_cluster gfs p f = gfs\<lparr>clusters := (clusters gfs)(p \<mapsto> f (cl gfs p))\<rparr>"

definition mark_cluster :: "ghostfs \<Rightarrow> nat \<Rightarrow> ghostfs" where
  "mark_cluster gfs p = upd_cluster gfs p (\<lambda>c. c\<lparr>c_dirty := 1\<rparr>)"

definition unmark_cluster :: "cluster \<Rightarrow> cluster" where
  "unmark_cluster c = c\<lparr>c_dirty := 0\<rparr>"

definition is_dirty :: "cluster \<Rightarrow> bool" where
  "is_dirty c = (c_dirty c \<noteq> 0)"

text \<open>Dereferencing an entry pointer, writing through it, and \<^verbatim>\<open>entry++\<close>. The code
  never steps a pointer to the root entry.\<close>

definition entry_get :: "ghostfs \<Rightarrow> entry_ptr \<Rightarrow> dir_entry" where
  "entry_get gfs p =
     (case p of RootEntry \<Rightarrow> root_entry gfs
      | ClusterEntry c i \<Rightarrow> dir_entry_at (c_data (cl gfs c)) i)"

text \<open>A store of the bytes \<open>bs\<close> at byte offset \<open>off\<close> of the entry pointed to.\<close>

definition entry_write :: "ghostfs \<Rightarrow> entry_ptr \<Rightarrow> nat \<Rightarrow> byte list \<Rightarrow> ghostfs" where
  "entry_write gfs p off bs =
     (case p of
        RootEntry \<Rightarrow>
          gfs\<lparr>root_entry := dir_entry_at (memcpy_at (dir_entry_bytes (root_entry gfs)) off bs) 0\<rparr>
      | ClusterEntry c i \<Rightarrow>
          upd_cluster gfs c (\<lambda>k. k\<lparr>c_data := memcpy_at (c_data k) (DIR_ENTRY_SIZE * i + off) bs\<rparr>))"

definition dir_entry_set_size :: "ghostfs \<Rightarrow> entry_ptr \<Rightarrow> 32 word \<Rightarrow> bool \<Rightarrow> ghostfs" where
  "dir_entry_set_size gfs p new_size is_dir =
     (let s = new_size AND 0x7FFFFFFF
      in entry_write gfs p FILENAME_SIZE (bytes_of_u32 (if is_dir then s OR 0x80000000 else s)))"

definition entry_set_cluster :: "ghostfs \<Rightarrow> entry_ptr \<Rightarrow> 16 word \<Rightarrow> ghostfs" where
  "entry_set_cluster gfs p nr = entry_write gfs p (FILENAME_SIZE + 4) (bytes_of_u16 nr)"

definition entry_inc :: "entry_ptr \<Rightarrow> entry_ptr" where
  "entry_inc p = (case p of RootEntry \<Rightarrow> RootEntry | ClusterEntry c i \<Rightarrow> ClusterEntry c (i + 1))"

subsection \<open>The byte stream under the filesystem\<close>

text \<open>Modelled from the spec: \<^verbatim>\<open>stegger_read\<close> and \<^verbatim>\<open>stegger_write\<close> (stegger.c is
  not part of the sources at hand). The codec presents a flat byte-addressable store of
  \<open>capacity\<close> bytes; \<open>read_at\<close> returns the \<open>n\<close> bytes at \<open>offset\<close>, \<open>write_at\<close>
  replaces them, and both fail with out-of-range when \<open>offset + n > capacity\<close>.\<close>

definition stegger_read :: "byte list \<Rightarrow> nat \<Rightarrow> nat \<Rightarrow> errno + byte list" where
  "stegger_read st n off =
     (if off + n > length st then Inl ERANGE else Inr (take n (drop off st)))"

definition stegger_write :: "byte list \<Rightarrow> byte list \<Rightarrow> nat \<Rightarrow> errno + byte list" where
  "stegger_write st buf off =
     (if off + length buf > length st then Inl ERANGE
      else Inr (take off st @ buf @ drop (off + length buf) st))"

subsection \<open>Cluster store\<close>

definition read_cluster :: "ghostfs \<Rightarrow> nat \<Rightarrow> errno + cluster" where
  "read_cluster gfs nr =
     (case stegger_read (stegger gfs) CLUSTER_SIZE (HEADER_SIZE + nr * CLUSTER_SIZE) of
        Inl e \<Rightarrow> Inl e
      | Inr bs \<Rightarrow> Inr (unmark_cluster (cluster_of_bytes bs)))"

text \<open>\<open>write_cluster\<close> takes the cluster by pointer and clears its dirty byte after the
  write went through; the cluster comes back as the first component.\<close>

definition write_cluster :: "ghostfs \<Rightarrow> cluster \<Rightarrow> nat \<Rightarrow> (errno + cluster) \<times> ghostfs" where
  "write_cluster gfs c nr =
     (case stegger_write (stegger gfs) (bytes_of_cluster c) (HEADER_SIZE + nr * CLUSTER_SIZE) of
        Inl e \<Rightarrow> (Inl e, gfs)
      | Inr st \<Rightarrow> (Inr (unmark_cluster c), gfs\<lparr>stegger := st\<rparr>))"

definition cluster_get :: "ghostfs \<Rightarrow> nat \<Rightarrow> (errno + nat) \<times> ghostfs" where
  "cluster_get gfs nr =
     (if nr \<ge> unat (hdr_cluster_count gfs) then (Inl ERANGE, gfs)
      else case clusters gfs nr of
        Some c \<Rightarrow> (Inr nr, gfs)
      | None \<Rightarrow>
          (case read_cluster gfs nr of
             Inl e \<Rightarrow> (Inl e, gfs)
           | Inr c \<Rightarrow> (Inr nr, gfs\<lparr>clusters := (clusters gfs)(nr \<mapsto> c)\<rparr>)))"

definition cluster_get_next :: "ghostfs \<Rightarrow> nat \<Rightarrow> (errno + nat) \<times> ghostfs" where
  "cluster_get_next gfs c =
     (if c_next (cl gfs c) = 0 then (Inl EIO, gfs)
      else cluster_get gfs (unat (c_next (cl gfs c))))"

text \<open>\<open>cluster_at\<close>: the loop \<^verbatim>\<open>for (i = 0; i <= index; i++)\<close> runs \<open>index + 1\<close> times;
  the index is non-negative at every call site.\<close>

fun cluster_at :: "ghostfs \<Rightarrow> nat \<Rightarrow> nat \<Rightarrow> (errno + nat) \<times> ghostfs" where
  "cluster_at gfs nr 0 = (if nr = 0 then (Inl EIO, gfs) else cluster_get gfs nr)"
| "cluster_at gfs nr (Suc i) =
     (if nr = 0 then (Inl EIO, gfs)
      else case cluster_get gfs nr of
        (Inl e, gfs') \<Rightarrow> (Inl e, gfs')
      | (Inr p, gfs') \<Rightarrow> cluster_at gfs' (unat (c_next (cl gfs' p))) i)"

subsection \<open>Directory iterator\<close>

definition dir_iter_init :: "ghostfs \<Rightarrow> nat \<Rightarrow> (errno + dir_iter) \<times> ghostfs" where
  "dir_iter_init gfs cluster_nr =
     (case cluster_get gfs cluster_nr of
        (Inl e, gfs') \<Rightarrow> (Inl e, gfs')
      | (Inr c, gfs') \<Rightarrow>
          (Inr \<lparr> it_cluster = c, it_entry = ClusterEntry c 0, it_entry_nr = 0 \<rparr>, gfs'))"

definition dir_iter_next :: "ghostfs \<Rightarrow> dir_iter \<Rightarrow> (errno + dir_iter) \<times> ghostfs" where
  "dir_iter_next gfs it =
     (if it_entry_nr it \<ge> CLUSTER_DIRENTS - 1 then
        (if c_next (cl gfs (it_cluster it)) = 0 then (Inl ENOENT, gfs)
         else case cluster_get_next gfs (it_cluster it) of
           (Inl e, gfs') \<Rightarrow> (Inl e, gfs')
         | (Inr c, gfs') \<Rightarrow>
             (Inr (it\<lparr> it_cluster := c, it_entry_nr := 0, it_entry := ClusterEntry c 0 \<rparr>), gfs'))
      else
        (Inr (it\<lparr> it_entry_nr := it_entry_nr it + 1, it_entry := entry_inc (it_entry it) \<rparr>), gfs))"


subsection \<open>C strings\<close>

text \<open>A \<^verbatim>\<open>const char *\<close> is the list of bytes from the pointer on; the terminating NUL
  is implicit at the end of the list, and a NUL inside the list ends the string there.\<close>

definition str :: "string \<Rightarrow> byte list" where
  "str s = map of_char s"

definition c_hd :: "byte list \<Rightarrow> byte" where
  "c_hd s = (case s of [] \<Rightarrow> 0 | c # _ \<Rightarrow> c)"

fun strchr :: "byte list \<Rightarrow> byte \<Rightarrow> byte list option" where
  "strchr [] c = None"
| "strchr (x # xs) c = (if x = 0 then None else if x = c then Some (x # xs) else strchr xs c)"

definition strlen :: "byte list \<Rightarrow> nat" where
  "strlen s = length (takeWhile (\<lambda>c. c \<noteq> 0) s)"

text \<open>\<^verbatim>\<open>strncmp(a, b, n) == 0\<close>.\<close>

fun strncmp_eq :: "byte list \<Rightarrow> byte list \<Rightarrow> nat \<Rightarrow> bool" where
  "strncmp_eq a b 0 = True"
| "strncmp_eq a b (Suc n) =
     (if c_hd a \<noteq> c_hd b then False
      else if c_hd a = 0 then True
      else strncmp_eq (tl a) (tl b) n)"

text \<open>The bytes \<^verbatim>\<open>strcpy\<close> stores: the string and its terminator.\<close>

definition strcpy_bytes :: "byte list \<Rightarrow> byte list" where
  "strcpy_bytes s = takeWhile (\<lambda>c. c \<noteq> 0) s @ [0]"

fun component_eq :: "byte list \<Rightarrow> byte list \<Rightarrow> nat \<Rightarrow> bool" where
  "component_eq cmp name 0 = False"
| "component_eq cmp name (Suc n) =
     (if c_hd cmp \<noteq> 0 \<and> c_hd cmp \<noteq> 47 \<and> c_hd cmp = c_hd name
      then component_eq (tl cmp) (tl name) n
      else (c_hd cmp = 0 \<or> c_hd cmp = 47) \<and> c_hd name = 0)"

function last_component :: "byte list \<Rightarrow> byte list" where
  "last_component path =
     (case strchr path 47 of None \<Rightarrow> path | Some s \<Rightarrow> last_component (tl s))"
  by pat_completeness auto
termination
proof (relation "measure length")
  fix path s
  assume a: "strchr path 47 = Some s"
  have "strchr p c = Some t \<Longrightarrow> t \<noteq> [] \<and> length t \<le> length p" for p c t
    by (induction p) (auto split: if_splits)
  from this [OF a] show "(tl s, path) \<in> measure length" by (cases s) auto
qed simp

subsection \<open>Directory engine\<close>

partial_function (option) dir_iter_next_used ::
  "ghostfs \<Rightarrow> dir_iter \<Rightarrow> ((errno + dir_iter) \<times> ghostfs) option" where
  "dir_iter_next_used gfs temp =
     (case dir_iter_next gfs temp of
        (Inl e, gfs') \<Rightarrow> Some (Inl e, gfs')
      | (Inr temp', gfs') \<Rightarrow>
          if \<not> dir_entry_used (entry_get gfs' (it_entry temp'))
          then dir_iter_next_used gfs' temp'
          else Some (Inr temp', gfs'))"

declare dir_iter_next_used.simps [code]

text \<open>The \<^verbatim>\<open>for (;;)\<close> of \<open>dir_iter_lookup\<close>, with the iterator and \<open>cmp\<close> as loop state.\<close>

partial_function (option) dir_iter_lookup_loop ::
  "ghostfs \<Rightarrow> dir_iter \<Rightarrow> byte list \<Rightarrow> bool \<Rightarrow> ((errno + dir_iter) \<times> ghostfs) option" where
  "dir_iter_lookup_loop gfs it cmp skip_last =
     (if component_eq cmp (e_filename (entry_get gfs (it_entry it))) FILENAME_SIZE then
        (case strchr cmp 47 of
           None \<Rightarrow> Some (Inr it, gfs)
         | Some nxt \<Rightarrow>
             if skip_last \<and> strchr (tl nxt) 47 = None then Some (Inr it, gfs)
             else if \<not> dir_entry_is_directory (entry_get gfs (it_entry it))
             then Some (Inl ENOTDIR, gfs)
             else (case dir_iter_init gfs (unat (e_cluster (entry_get gfs (it_entry it)))) of
                     (Inl e, gfs') \<Rightarrow> Some (Inl e, gfs')
                   | (Inr it', gfs') \<Rightarrow> dir_iter_lookup_loop gfs' it' (tl nxt) skip_last))
      else
        Option.bind (dir_iter_next_used gfs it)
          (\<lambda>r. case r of
                 (Inl e, gfs') \<Rightarrow> Some (Inl e, gfs')
               | (Inr it', gfs') \<Rightarrow> dir_iter_lookup_loop gfs' it' cmp skip_last))"

declare dir_iter_lookup_loop.simps [code]

definition dir_iter_lookup ::
  "ghostfs \<Rightarrow> byte list \<Rightarrow> bool \<Rightarrow> ((errno + dir_iter) \<times> ghostfs) option" where
  "dir_iter_lookup gfs path skip_last =
     (if c_hd path \<noteq> 47 then Some (Inl EINVAL, gfs)
      else case dir_iter_init gfs 0 of
        (Inl e, gfs') \<Rightarrow> Some (Inl e, gfs')
      | (Inr it, gfs') \<Rightarrow>
          (let cmp = tl path
           in if c_hd cmp = 0 \<or> (skip_last \<and> strchr cmp 47 = None)
              then Some (Inr (it\<lparr>it_entry := RootEntry\<rparr>), gfs')
              else dir_iter_lookup_loop gfs' it cmp skip_last))"

text \<open>\<open>find_empty_entry\<close> returns its code together with the caller's iterator, which it
  overwrites on success and on \<open>ENOENT\<close> only.\<close>

partial_function (option) find_empty_loop ::
  "ghostfs \<Rightarrow> dir_iter \<Rightarrow> (((errno + unit) \<times> dir_iter) \<times> ghostfs) option" where
  "find_empty_loop gfs it =
     (if dir_entry_used (entry_get gfs (it_entry it)) then
        (case dir_iter_next gfs it of
           (Inl e, gfs') \<Rightarrow> Some ((Inl e, it), gfs')
         | (Inr it', gfs') \<Rightarrow> find_empty_loop gfs' it')
      else Some ((Inr (), it), gfs))"

declare find_empty_loop.simps [code]

definition find_empty_entry ::
  "ghostfs \<Rightarrow> dir_iter \<Rightarrow> nat \<Rightarrow> (((errno + unit) \<times> dir_iter) \<times> ghostfs) option" where
  "find_empty_entry gfs iter cluster_nr =
     (case dir_iter_init gfs cluster_nr of
        (Inl e, gfs') \<Rightarrow> Some ((Inl e, iter), gfs')
      | (Inr it, gfs') \<Rightarrow>
          Option.bind (find_empty_loop gfs' it)
            (\<lambda>((ret, it'), gfs'').
               Some ((ret, if ret = Inr () \<or> ret = Inl ENOENT then it' else iter), gfs'')))"

partial_function (option) dir_contains_loop ::
  "ghostfs \<Rightarrow> dir_iter \<Rightarrow> byte list \<Rightarrow> ((errno + unit) \<times> ghostfs) option" where
  "dir_contains_loop gfs it name =
     (if strncmp_eq (e_filename (entry_get gfs (it_entry it))) name FILENAME_SIZE
      then Some (Inr (), gfs)
      else Option.bind (dir_iter_next_used gfs it)
             (\<lambda>r. case r of
                    (Inl e, gfs') \<Rightarrow> Some (Inl e, gfs')
                  | (Inr it', gfs') \<Rightarrow> dir_contains_loop gfs' it' name))"

declare dir_contains_loop.simps [code]

definition dir_contains ::
  "ghostfs \<Rightarrow> nat \<Rightarrow> byte list \<Rightarrow> ((errno + unit) \<times> ghostfs) option" where
  "dir_contains gfs cluster_nr name =
     (case dir_iter_init gfs cluster_nr of
        (Inl e, gfs') \<Rightarrow> Some (Inl e, gfs')
      | (Inr it, gfs') \<Rightarrow> dir_contains_loop gfs' it name)"


subsection \<open>Allocator\<close>

text \<open>One free cluster found by the scan of \<open>alloc_clusters\<close> at position \<open>pos\<close>: it is
  claimed and linked behind \<open>prev\<close>. The result is the new value of \<open>first\<close> and the
  handle.\<close>

definition alloc_claim ::
  "ghostfs \<Rightarrow> bool \<Rightarrow> nat \<Rightarrow> nat \<Rightarrow> nat \<Rightarrow> nat option \<Rightarrow> nat \<times> ghostfs" where
  "alloc_claim gfs zero c pos first prev =
     (let g1 = (if zero then upd_cluster gfs c (\<lambda>k. k\<lparr>c_data := replicate CLUSTER_DATA 0\<rparr>)
                else gfs);
          g2 = upd_cluster g1 c (\<lambda>k. k\<lparr>c_used := 1\<rparr>);
          g3 = mark_cluster g2 c;
          g4 = g3\<lparr>gfs_free_clusters := gfs_free_clusters g3 - 1\<rparr>
      in if first = 0 then (pos, g4)
         else (first, case prev of None \<Rightarrow> g4
                      | Some p \<Rightarrow> upd_cluster g4 p (\<lambda>k. k\<lparr>c_next := of_nat pos\<rparr>)))"

text \<open>The \<^verbatim>\<open>undo:\<close> part of \<open>alloc_clusters\<close>: \<open>alloc\<close> clusters are released, following
  the next pointers from \<open>pos\<close>.\<close>

fun alloc_undo :: "ghostfs \<Rightarrow> errno \<Rightarrow> nat \<Rightarrow> nat \<Rightarrow> (errno + nat) \<times> ghostfs" where
  "alloc_undo gfs ret pos 0 = (Inl ret, gfs)"
| "alloc_undo gfs ret pos (Suc alloc) =
     (case cluster_get gfs pos of
        (Inl r, gfs') \<Rightarrow> (Inl r, gfs')
      | (Inr c, gfs') \<Rightarrow>
          (let g1 = upd_cluster gfs' c (\<lambda>k. k\<lparr>c_used := 0\<rparr>);
               g2 = mark_cluster g1 c;
               g3 = g2\<lparr>gfs_free_clusters := gfs_free_clusters g2 + 1\<rparr>
           in alloc_undo g3 ret (unat (c_next (cl g3 c))) alloc))"

text \<open>The two nested loops of \<open>alloc_clusters\<close> as one recursion on the scan position.
  With \<open>count = 0\<close> the C code would store through a null \<open>prev\<close>; no caller asks for
  zero clusters.\<close>

function alloc_loop ::
  "ghostfs \<Rightarrow> nat \<Rightarrow> bool \<Rightarrow> nat \<Rightarrow> nat \<Rightarrow> nat \<Rightarrow> nat option \<Rightarrow> (errno + nat) \<times> ghostfs" where
  "alloc_loop gfs count zero pos alloc first prev =
     (if alloc < count then
        (if pos \<ge> unat (hdr_cluster_count gfs) then alloc_undo gfs ENOSPC first alloc
         else case cluster_get gfs pos of
           (Inl e, gfs') \<Rightarrow> alloc_undo gfs' e first alloc
         | (Inr c, gfs') \<Rightarrow>
             if c_used (cl gfs' c) = 0 then
               (case alloc_claim gfs' zero c pos first prev of
                  (first', gfs'') \<Rightarrow> alloc_loop gfs'' count zero (pos + 1) (alloc + 1) first' (Some c))
             else alloc_loop gfs' count zero (pos + 1) alloc first prev)
      else
        (Inr first, case prev of None \<Rightarrow> gfs
                    | Some p \<Rightarrow> upd_cluster gfs p (\<lambda>k. k\<lparr>c_next := 0\<rparr>)))"
  by pat_completeness auto
termination
proof (relation "measure (\<lambda>(gfs, count, zero, pos, alloc, first, prev).
                   unat (hdr_cluster_count gfs) - pos)")
  have get: "cluster_get g n = (r, g') \<Longrightarrow> hdr_cluster_count g' = hdr_cluster_count g"
    for g n r g'
    by (auto simp: cluster_get_def split: if_splits option.splits sum.splits)
  have claim: "alloc_claim g z c p f pr = (f', g') \<Longrightarrow> hdr_cluster_count g' = hdr_cluster_count g"
    for g z c p f pr f' g'
    by (auto simp: alloc_claim_def Let_def upd_cluster_def mark_cluster_def
             split: if_splits option.splits)
  show "wf (measure (\<lambda>(gfs, count, zero, pos, alloc, first, prev).
              unat (hdr_cluster_count gfs) - pos))" by simp
  show "((gfs'', count, zero, pos + 1, alloc + 1, first', Some c),
         gfs, count, zero, pos, alloc, first, prev)
        \<in> measure (\<lambda>(gfs, count, zero, pos, alloc, first, prev).
              unat (hdr_cluster_count gfs) - pos)"
    if "\<not> unat (hdr_cluster_count gfs) \<le> pos"
      and "(r, gfs') = cluster_get gfs pos"
      and "(first', gfs'') = alloc_claim gfs' zero c pos first prev"
    for gfs count zero pos alloc first prev r gfs' c first' gfs''
    using that get [of gfs pos r gfs'] claim [of gfs' zero c pos first prev first' gfs'']
    by simp
  show "((gfs', count, zero, pos + 1, alloc, first, prev),
         gfs, count, zero, pos, alloc, first, prev)
        \<in> measure (\<lambda>(gfs, count, zero, pos, alloc, first, prev).
              unat (hdr_cluster_count gfs) - pos)"
    if "\<not> unat (hdr_cluster_count gfs) \<le> pos" and "(r, gfs') = cluster_get gfs pos"
    for gfs count zero pos alloc first prev r gfs'
    using that get [of gfs pos r gfs'] by simp
qed

definition alloc_clusters :: "ghostfs \<Rightarrow> nat \<Rightarrow> bool \<Rightarrow> (errno + nat) \<times> ghostfs" where
  "alloc_clusters gfs count zero = alloc_loop gfs count zero 1 0 0 None"

partial_function (option) free_clusters ::
  "ghostfs \<Rightarrow> nat \<Rightarrow> ((errno + unit) \<times> ghostfs) option" where
  "free_clusters gfs c =
     (let g1 = upd_cluster gfs c (\<lambda>k. k\<lparr>c_used := 0\<rparr>);
          g2 = mark_cluster g1 c;
          g3 = g2\<lparr>gfs_free_clusters := gfs_free_clusters g2 + 1\<rparr>
      in if c_next (cl g3 c) = 0 then Some (Inr (), g3)
         else case cluster_get g3 (unat (c_next (cl g3 c))) of
           (Inl e, gfs') \<Rightarrow> Some (Inl e, gfs')
         | (Inr c', gfs') \<Rightarrow> free_clusters gfs' c')"

declare free_clusters.simps [code]


subsection \<open>Creating and removing entries\<close>

text \<open>The last lines of \<open>create_entry\<close>: the name, the size word and the first cluster are
  stored in the slot the iterator points to.\<close>

definition create_entry_store ::
  "ghostfs \<Rightarrow> dir_iter \<Rightarrow> byte list \<Rightarrow> bool \<Rightarrow> nat \<Rightarrow> (errno + entry_ptr) \<times> ghostfs" where
  "create_entry_store gfs it name is_dir cluster_nr =
     (let g1 = entry_write gfs (it_entry it) 0 (strcpy_bytes name);
          g2 = dir_entry_set_size g1 (it_entry it) 0 is_dir;
          g3 = entry_set_cluster g2 (it_entry it) (of_nat cluster_nr);
          g4 = mark_cluster g3 (it_cluster it)
      in (Inr (it_entry it), g4))"

text \<open>The part of \<open>create_entry\<close> from \<^verbatim>\<open>if (is_dir)\<close> on. \<open>ext\<close> is the pair
  \<open>(prev, next)\<close> when the parent directory was extended by a cluster, and \<open>None\<close> when
  both pointers are still null.\<close>

definition create_entry_finish ::
  "ghostfs \<Rightarrow> dir_iter \<Rightarrow> byte list \<Rightarrow> bool \<Rightarrow> (nat \<times> nat) option
     \<Rightarrow> ((errno + entry_ptr) \<times> ghostfs) option" where
  "create_entry_finish gfs it name is_dir ext =
     (if is_dir then
        (case alloc_clusters gfs 1 True of
           (Inl e, g1) \<Rightarrow>
             (case ext of
                None \<Rightarrow> Some (Inl e, g1)
              | Some (prev, nxt) \<Rightarrow>
                  Option.bind (free_clusters g1 nxt)
                    (\<lambda>(_, g2). Some (Inl e, upd_cluster g2 prev (\<lambda>k. k\<lparr>c_next := 0\<rparr>))))
         | (Inr cluster_nr, g1) \<Rightarrow> Some (create_entry_store g1 it name is_dir cluster_nr))
      else Some (create_entry_store gfs it name is_dir 0))"

definition create_entry ::
  "ghostfs \<Rightarrow> byte list \<Rightarrow> bool \<Rightarrow> ((errno + entry_ptr) \<times> ghostfs) option" where
  "create_entry gfs path is_dir =
     Option.bind (dir_iter_lookup gfs path True)
       (\<lambda>r. case r of
          (Inl e, g) \<Rightarrow> Some (Inl e, g)
        | (Inr it, g) \<Rightarrow>
            if \<not> dir_entry_is_directory (entry_get g (it_entry it)) then Some (Inl ENOTDIR, g)
            else
              (let name = last_component path
               in if strlen name > FILENAME_SIZE - 1 then Some (Inl ENAMETOOLONG, g)
                  else if c_hd name = 0 then Some (Inl EINVAL, g)
                  else
                    Option.bind (dir_contains g (unat (e_cluster (entry_get g (it_entry it)))) name)
                      (\<lambda>(found, g1).
                         if found = Inr () then Some (Inl EEXIST, g1)
                         else
                           Option.bind
                             (find_empty_entry g1 it (unat (e_cluster (entry_get g1 (it_entry it)))))
                             (\<lambda>((ret, it1), g2).
                                case ret of
                                  Inr _ \<Rightarrow> create_entry_finish g2 it1 name is_dir None
                                | Inl e \<Rightarrow>
                                    if e \<noteq> ENOENT then Some (Inl e, g2)
                                    else
                                      (case alloc_clusters g2 1 True of
                                         (Inl e', g3) \<Rightarrow> Some (Inl e', g3)
                                       | (Inr nr, g3) \<Rightarrow>
                                           (let prev = it_cluster it1
                                            in Option.bind (find_empty_entry g3 it1 nr)
                                                 (\<lambda>((_, it2), g4).
                                                    (let g5 = upd_cluster g4 prev
                                                                (\<lambda>k. k\<lparr>c_next := of_nat nr\<rparr>);
                                                         g6 = mark_cluster g5 prev
                                                     in create_entry_finish g6 it2 name is_dir
                                                          (Some (prev, nr))))))))))"

definition ghostfs_create :: "ghostfs \<Rightarrow> byte list \<Rightarrow> ((errno + unit) \<times> ghostfs) option" where
  "ghostfs_create gfs path =
     map_option (\<lambda>(r, g). (map_sum id (\<lambda>_. ()) r, g)) (create_entry gfs path False)"

definition ghostfs_mkdir :: "ghostfs \<Rightarrow> byte list \<Rightarrow> ((errno + unit) \<times> ghostfs) option" where
  "ghostfs_mkdir gfs path =
     map_option (\<lambda>(r, g). (map_sum id (\<lambda>_. ()) r, g)) (create_entry gfs path True)"

text \<open>The \<^verbatim>\<open>unlink:\<close> label of \<open>remove_entry\<close>.\<close>

definition remove_entry_unlink :: "ghostfs \<Rightarrow> dir_iter \<Rightarrow> (errno + unit) \<times> ghostfs" where
  "remove_entry_unlink gfs link =
     (Inr (), mark_cluster (entry_write gfs (it_entry link) 0 [0]) (it_cluster link))"

definition remove_entry ::
  "ghostfs \<Rightarrow> byte list \<Rightarrow> bool \<Rightarrow> ((errno + unit) \<times> ghostfs) option" where
  "remove_entry gfs path is_dir =
     Option.bind (dir_iter_lookup gfs path False)
       (\<lambda>r. case r of
          (Inl e, g) \<Rightarrow> Some (Inl e, g)
        | (Inr link, g) \<Rightarrow>
            if it_entry link = RootEntry then Some (Inl EINVAL, g)
            else if is_dir \<noteq> dir_entry_is_directory (entry_get g (it_entry link))
            then Some (Inl (if is_dir then ENOTDIR else EISDIR), g)
            else if e_cluster (entry_get g (it_entry link)) = 0
            then Some (remove_entry_unlink g link)
            else
              (case dir_iter_init g (unat (e_cluster (entry_get g (it_entry link)))) of
                 (Inl e, g1) \<Rightarrow> Some (Inl e, g1)
               | (Inr it, g1) \<Rightarrow>
                   if is_dir then
                     (if dir_entry_used (entry_get g1 (it_entry it)) then Some (Inl ENOTEMPTY, g1)
                      else
                        Option.bind (dir_iter_next_used g1 it)
                          (\<lambda>(ret, g2).
                             case ret of
                               Inr _ \<Rightarrow> Some (Inl ENOTEMPTY, g2)
                             | Inl e \<Rightarrow>
                                 if e \<noteq> ENOENT then Some (Inl e, g2)
                                 else Option.bind (free_clusters g2 (it_cluster it))
                                        (\<lambda>(_, g3). Some (remove_entry_unlink g3 link))))
                   else
                     Option.bind (free_clusters g1 (it_cluster it))
                       (\<lambda>(_, g3). Some (remove_entry_unlink g3 link))))"

definition ghostfs_unlink :: "ghostfs \<Rightarrow> byte list \<Rightarrow> ((errno + unit) \<times> ghostfs) option" where
  "ghostfs_unlink gfs path = remove_entry gfs path False"

definition ghostfs_rmdir :: "ghostfs \<Rightarrow> byte list \<Rightarrow> ((errno + unit) \<times> ghostfs) option" where
  "ghostfs_rmdir gfs path = remove_entry gfs path True"

subsection \<open>Truncate\<close>

definition size_to_clusters :: "int \<Rightarrow> int" where
  "size_to_clusters sz =
     sz div int CLUSTER_DATA + (if sz mod int CLUSTER_DATA \<noteq> 0 then 1 else 0)"

text \<open>The end of \<open>do_truncate\<close>: the new size is stored and the entry's cluster marked.\<close>

definition do_truncate_finish :: "ghostfs \<Rightarrow> dir_iter \<Rightarrow> int \<Rightarrow> (errno + unit) \<times> ghostfs" where
  "do_truncate_finish gfs it new_size =
     (Inr (), mark_cluster (dir_entry_set_size gfs (it_entry it) (word_of_int new_size) False)
                (it_cluster it))"

text \<open>The branch \<^verbatim>\<open>new_size > it->entry->size\<close>; \<open>c\<close> is the last cluster of the chain, or
  \<open>None\<close> for the null pointer of a file without clusters.\<close>

definition do_truncate_grow ::
  "ghostfs \<Rightarrow> dir_iter \<Rightarrow> int \<Rightarrow> nat option \<Rightarrow> int \<Rightarrow> (errno + unit) \<times> ghostfs" where
  "do_truncate_grow gfs it new_size c count =
     (let used = uint (e_size (entry_get gfs (it_entry it))) mod int CLUSTER_DATA;
          g1 = (if used \<noteq> 0 then
                  (case c of
                     None \<Rightarrow> gfs
                   | Some p \<Rightarrow>
                       mark_cluster
                         (upd_cluster gfs p
                            (\<lambda>k. k\<lparr>c_data := memcpy_at (c_data k) (nat used)
                                                 (replicate (CLUSTER_DATA - nat used) 0)\<rparr>)) p)
                else gfs);
          alloc = size_to_clusters new_size - count
      in if alloc \<noteq> 0 then
           (case alloc_clusters g1 (nat alloc) True of
              (Inl e, g2) \<Rightarrow> (Inl e, g2)
            | (Inr ret, g2) \<Rightarrow>
                do_truncate_finish
                  (case c of
                     Some p \<Rightarrow> mark_cluster (upd_cluster g2 p (\<lambda>k. k\<lparr>c_next := of_nat ret\<rparr>)) p
                   | None \<Rightarrow> entry_set_cluster g2 (it_entry it) (of_nat ret))
                  it new_size)
         else do_truncate_finish g1 it new_size)"

text \<open>The branch \<^verbatim>\<open>new_size < it->entry->size\<close>.\<close>

definition do_truncate_shrink ::
  "ghostfs \<Rightarrow> dir_iter \<Rightarrow> int \<Rightarrow> nat option \<Rightarrow> nat \<Rightarrow> ((errno + unit) \<times> ghostfs) option" where
  "do_truncate_shrink gfs it new_size c nxt =
     (if nxt \<noteq> 0 then
        (let g1 = (case c of
                     Some p \<Rightarrow> mark_cluster (upd_cluster gfs p (\<lambda>k. k\<lparr>c_next := 0\<rparr>)) p
                   | None \<Rightarrow> gfs)
         in case cluster_get g1 nxt of
              (Inl e, g2) \<Rightarrow> Some (Inl e, g2)
            | (Inr c', g2) \<Rightarrow>
                Option.bind (free_clusters g2 c')
                  (\<lambda>(_, g3). Some (do_truncate_finish g3 it new_size)))
      else Some (do_truncate_finish gfs it new_size))"

definition do_truncate ::
  "ghostfs \<Rightarrow> dir_iter \<Rightarrow> int \<Rightarrow> ((errno + unit) \<times> ghostfs) option" where
  "do_truncate gfs it new_size =
     (if new_size < 0 then Some (Inl EINVAL, gfs)
      else if new_size > FILESIZE_MAX then Some (Inl EFBIG, gfs)
      else if dir_entry_is_directory (entry_get gfs (it_entry it)) then Some (Inl EISDIR, gfs)
      else
        (let nxt = unat (e_cluster (entry_get gfs (it_entry it)));
             count = size_to_clusters (min (uint (e_size (entry_get gfs (it_entry it)))) new_size)
         in case (if count \<noteq> 0 then
                    (case cluster_at gfs nxt (nat (count - 1)) of
                       (Inl e, g) \<Rightarrow> (Inl e, g)
                     | (Inr p, g) \<Rightarrow> (Inr (Some p, unat (c_next (cl g p))), g))
                  else (Inr (None, nxt), gfs)) of
              (Inl e, g) \<Rightarrow> Some (Inl e, g)
            | (Inr (c, nxt'), g) \<Rightarrow>
                if new_size > uint (e_size (entry_get g (it_entry it)))
                then Some (do_truncate_grow g it new_size c count)
                else if new_size < uint (e_size (entry_get g (it_entry it)))
                then do_truncate_shrink g it new_size c nxt'
                else Some (do_truncate_finish g it new_size)))"

definition ghostfs_truncate ::
  "ghostfs \<Rightarrow> byte list \<Rightarrow> int \<Rightarrow> ((errno + unit) \<times> ghostfs) option" where
  "ghostfs_truncate gfs path new_size =
     Option.bind (dir_iter_lookup gfs path False)
       (\<lambda>r. case r of
          (Inl e, g) \<Rightarrow> Some (Inl e, g)
        | (Inr it, g) \<Rightarrow> do_truncate g it new_size)"

subsection \<open>Rename and open\<close>

definition ghostfs_rename ::
  "ghostfs \<Rightarrow> byte list \<Rightarrow> byte list \<Rightarrow> ((errno + unit) \<times> ghostfs) option" where
  "ghostfs_rename gfs path newpath =
     Option.bind (dir_iter_lookup gfs path False)
       (\<lambda>r. case r of
          (Inl e, g) \<Rightarrow> Some (Inl e, g)
        | (Inr it, g) \<Rightarrow>
            if it_entry it = RootEntry then Some (Inl EINVAL, g)
            else
              Option.bind (remove_entry g newpath False)
                (\<lambda>(_, g1).
                   Option.bind (create_entry g1 newpath False)
                     (\<lambda>r'. case r' of
                        (Inl e, g2) \<Rightarrow> Some (Inl e, g2)
                      | (Inr entry, g2) \<Rightarrow>
                          (let g3 = entry_write g2 (it_entry it) 0 [0];
                               g4 = mark_cluster g3 (it_cluster it);
                               g5 = entry_write g4 entry FILENAME_SIZE
                                      (bytes_of_u32 (e_size (entry_get g4 (it_entry it))));
                               g6 = entry_set_cluster g5 entry
                                      (e_cluster (entry_get g5 (it_entry it)))
                           in Some (Inr (), g6)))))"

text \<open>A \<^verbatim>\<open>struct ghostfs_entry\<close> holds just the iterator.\<close>

definition ghostfs_open ::
  "ghostfs \<Rightarrow> byte list \<Rightarrow> ((errno + dir_iter) \<times> ghostfs) option" where
  "ghostfs_open gfs filename =
     Option.bind (dir_iter_lookup gfs filename False)
       (\<lambda>r. case r of
          (Inl e, g) \<Rightarrow> Some (Inl e, g)
        | (Inr it, g) \<Rightarrow>
            if dir_entry_is_directory (entry_get g (it_entry it)) then Some (Inl EISDIR, g)
            else Some (Inr it, g))"


subsection \<open>Write and read\<close>

text \<open>The conversion of an \<^verbatim>\<open>unsigned long\<close> sum to \<^verbatim>\<open>off_t\<close>.\<close>

definition to_off_t :: "int \<Rightarrow> int" where
  "to_off_t x = (let y = x mod 2 ^ 64 in if y \<ge> 2 ^ 63 then y - 2 ^ 64 else y)"

text \<open>The copy loop of \<open>ghostfs_write\<close>. \<open>buf\<close> is what is left of the caller's buffer (its
  length is the remaining \<open>size\<close>); \<open>offset\<close> is below \<open>CLUSTER_DATA\<close> on entry and 0 in
  every later round.\<close>

function write_loop ::
  "ghostfs \<Rightarrow> nat \<Rightarrow> byte list \<Rightarrow> nat \<Rightarrow> nat \<Rightarrow> (errno + nat) \<times> ghostfs" where
  "write_loop gfs c buf offset written =
     (let w0 = min (length buf) CLUSTER_DATA;
          w = (if offset + w0 > CLUSTER_DATA then w0 - ((offset + w0) - CLUSTER_DATA) else w0);
          g1 = mark_cluster
                 (upd_cluster gfs c (\<lambda>k. k\<lparr>c_data := memcpy_at (c_data k) offset (take w buf)\<rparr>)) c
      in if length buf - w = 0 then (Inr (written + w), g1)
         else case cluster_get_next g1 c of
           (Inl e, g2) \<Rightarrow> (Inl e, g2)
         | (Inr c', g2) \<Rightarrow> write_loop g2 c' (drop w buf) 0 (written + w))"
  by pat_completeness auto
termination
  by (relation "measure (\<lambda>(gfs, c, buf, offset, written).
                   2 * length buf + (if offset = 0 then 0 else 1))")
     (auto simp: CLUSTER_DATA_def split: if_splits)

definition ghostfs_write ::
  "ghostfs \<Rightarrow> dir_iter \<Rightarrow> byte list \<Rightarrow> int \<Rightarrow> ((errno + nat) \<times> ghostfs) option" where
  "ghostfs_write gfs gentry buf offset =
     (let entry = it_entry gentry; sz = int (length buf)
      in if offset < 0 then Some (Inl EINVAL, gfs)
         else if (sz + offset) mod 2 ^ 64 < sz then Some (Inl EOVERFLOW, gfs)
         else
           Option.bind
             (if uint (e_size (entry_get gfs entry)) < (offset + sz) mod 2 ^ 64
              then do_truncate gfs gentry (to_off_t (offset + sz))
              else Some (Inr (), gfs))
             (\<lambda>r. case r of
                (Inl e, g) \<Rightarrow> Some (Inl e, g)
              | (Inr _, g) \<Rightarrow>
                  (case cluster_at g (unat (e_cluster (entry_get g entry)))
                          (nat (offset div int CLUSTER_DATA)) of
                     (Inl e, g1) \<Rightarrow> Some (Inl e, g1)
                   | (Inr c, g1) \<Rightarrow>
                       Some (write_loop g1 c buf (nat (offset mod int CLUSTER_DATA)) 0))))"

text \<open>The copy loop of \<open>ghostfs_read\<close>; \<open>buf\<close> collects the bytes stored in the caller's
  buffer so far, and the number of bytes read is its length.\<close>

function read_loop ::
  "ghostfs \<Rightarrow> nat \<Rightarrow> nat \<Rightarrow> nat \<Rightarrow> byte list \<Rightarrow> (errno + byte list) \<times> ghostfs" where
  "read_loop gfs c sz offset buf =
     (let r0 = min sz CLUSTER_DATA;
          r = (if offset + r0 > CLUSTER_DATA then r0 - ((offset + r0) - CLUSTER_DATA) else r0);
          buf' = buf @ take r (drop offset (c_data (cl gfs c)))
      in if sz - r = 0 then (Inr buf', gfs)
         else case cluster_get_next gfs c of
           (Inl e, g) \<Rightarrow> (Inl e, g)
         | (Inr c', g) \<Rightarrow> read_loop g c' (sz - r) 0 buf')"
  by pat_completeness auto
termination
  by (relation "measure (\<lambda>(gfs, c, sz, offset, buf).
                   2 * sz + (if offset = 0 then 0 else 1))")
     (auto simp: CLUSTER_DATA_def split: if_splits)

definition ghostfs_read ::
  "ghostfs \<Rightarrow> dir_iter \<Rightarrow> nat \<Rightarrow> int \<Rightarrow> (errno + byte list) \<times> ghostfs" where
  "ghostfs_read gfs gentry sz offset =
     (let entry = it_entry gentry
      in if offset < 0 then (Inl EINVAL, gfs)
         else if (int sz + offset) mod 2 ^ 64 < int sz then (Inl EOVERFLOW, gfs)
         else if offset > uint (e_size (entry_get gfs entry)) then (Inr [], gfs)
         else
           (let sz1 = (if (offset + int sz) mod 2 ^ 64 > uint (e_size (entry_get gfs entry))
                       then nat (uint (e_size (entry_get gfs entry)) - offset) else sz)
            in if sz1 = 0 then (Inr [], gfs)
               else case cluster_at gfs (unat (e_cluster (entry_get gfs entry)))
                           (nat (offset div int CLUSTER_DATA)) of
                 (Inl e, g) \<Rightarrow> (Inl e, g)
               | (Inr c, g) \<Rightarrow> read_loop g c sz1 (nat (offset mod int CLUSTER_DATA)) []))"

subsection \<open>Superblock: check, format, mount\<close>

text \<open>MD5 itself (md5.c) is a parameter \<open>md5\<close> of the functions below: the 16-byte digest
  of a byte string.\<close>

definition ghostfs_check ::
  "(byte list \<Rightarrow> byte list) \<Rightarrow> ghostfs \<Rightarrow> (errno + unit) \<times> ghostfs" where
  "ghostfs_check md5 gfs =
     (case stegger_read (stegger gfs) 16 0 of
        Inl e \<Rightarrow> (Inl e, gfs)
      | Inr md5_fs \<Rightarrow>
          (case stegger_read (stegger gfs) 2 16 of
             Inl e \<Rightarrow> (Inl e, gfs)
           | Inr hdr \<Rightarrow>
               (let g1 = gfs\<lparr>hdr_cluster_count := u16_of_bytes hdr\<rparr>
                in case stegger_read (stegger g1) CLUSTER_SIZE HEADER_SIZE of
                     Inl e \<Rightarrow> (Inl e, g1)
                   | Inr root \<Rightarrow>
                       if md5 (bytes_of_u16 (hdr_cluster_count g1) @ root) = md5_fs
                       then (Inr (), g1) else (Inl EIO, g1))))"

definition write_header ::
  "(byte list \<Rightarrow> byte list) \<Rightarrow> ghostfs \<Rightarrow> cluster \<Rightarrow> (errno + cluster) \<times> ghostfs" where
  "write_header md5 gfs cluster0 =
     (let digest = md5 (bytes_of_u16 (hdr_cluster_count gfs) @ bytes_of_cluster cluster0)
      in case stegger_write (stegger gfs) digest 0 of
           Inl e \<Rightarrow> (Inl e, gfs)
         | Inr st1 \<Rightarrow>
             (case stegger_write st1 (bytes_of_u16 (hdr_cluster_count gfs)) 16 of
                Inl e \<Rightarrow> (Inl e, gfs\<lparr>stegger := st1\<rparr>)
              | Inr st2 \<Rightarrow> write_cluster (gfs\<lparr>stegger := st2\<rparr>) cluster0 0))"

text \<open>\<^verbatim>\<open>for (i = 0; i < CLUSTER_DATA; i += sizeof(struct dir_entry))\<close> of \<open>ghostfs_format\<close>:
  the first filename byte of every slot is cleared.\<close>

function format_dirents :: "byte list \<Rightarrow> nat \<Rightarrow> byte list" where
  "format_dirents d i =
     (if i < CLUSTER_DATA then format_dirents (d[i := 0]) (i + DIR_ENTRY_SIZE) else d)"
  by pat_completeness auto
termination
  by (relation "measure (\<lambda>(d, i). CLUSTER_DATA - i)") (auto simp: DIR_ENTRY_SIZE_def)

text \<open>\<^verbatim>\<open>for (i = 1; i < count; i++)\<close> of \<open>ghostfs_format\<close>, over the list of the values of
  \<open>i\<close>.\<close>

fun format_clusters :: "ghostfs \<Rightarrow> nat list \<Rightarrow> (errno + unit) \<times> ghostfs" where
  "format_clusters gfs [] = (Inr (), gfs)"
| "format_clusters gfs (i # rest) =
     (case read_cluster gfs i of
        Inl e \<Rightarrow> (Inl e, gfs)
      | Inr cluster \<Rightarrow>
          (case write_cluster gfs (cluster\<lparr>c_used := 0\<rparr>) i of
             (Inl e, g) \<Rightarrow> (Inl e, g)
           | (Inr _, g) \<Rightarrow> format_clusters g rest))"

text \<open>\<open>ghostfs_format\<close> works on a handle of its own, of which only the stegger and the
  cluster count are set; the result is the formatted byte stream.\<close>

definition ghostfs_format ::
  "(byte list \<Rightarrow> byte list) \<Rightarrow> byte list \<Rightarrow> (errno + unit) \<times> byte list" where
  "ghostfs_format md5 st =
     (if length st < HEADER_SIZE + CLUSTER_SIZE then (Inl ENOSPC, st)
      else
        (let count0 = (length st - HEADER_SIZE) div CLUSTER_SIZE;
             count = (if count0 > 0xFFFF then 0xFFFF else count0);
             gfs = \<lparr> hdr_cluster_count = of_nat count, stegger = st, clusters = (\<lambda>_. None),
                     root_entry = \<lparr> e_filename = [], e_size = 0, e_cluster = 0 \<rparr>,
                     gfs_free_clusters = 0 \<rparr>
         in case read_cluster gfs 0 of
              Inl e \<Rightarrow> (Inl e, st)
            | Inr cluster \<Rightarrow>
                (let c1 = cluster\<lparr>c_next := 0\<rparr>;
                     c2 = c1\<lparr>c_data := format_dirents (c_data c1) 0\<rparr>
                 in case write_header md5 gfs c2 of
                      (Inl e, g) \<Rightarrow> (Inl e, stegger g)
                    | (Inr _, g) \<Rightarrow>
                        (case format_clusters g [1..<count] of (r, g') \<Rightarrow> (r, stegger g')))))"

text \<open>The loop of \<open>ghostfs_mount\<close> that loads every cluster and counts the free ones.\<close>

fun mount_count_free :: "ghostfs \<Rightarrow> nat list \<Rightarrow> (errno + unit) \<times> ghostfs" where
  "mount_count_free gfs [] = (Inr (), gfs)"
| "mount_count_free gfs (i # rest) =
     (case cluster_get gfs i of
        (Inl e, g) \<Rightarrow> (Inl e, g)
      | (Inr c, g) \<Rightarrow>
          mount_count_free
            (if c_used (cl g c) = 0 then g\<lparr>gfs_free_clusters := gfs_free_clusters g + 1\<rparr> else g)
            rest)"

text \<open>\<open>ghostfs_mount\<close> returns the handle, or the error after freeing it.\<close>

definition ghostfs_mount :: "(byte list \<Rightarrow> byte list) \<Rightarrow> byte list \<Rightarrow> errno + ghostfs" where
  "ghostfs_mount md5 st =
     (let gfs = \<lparr> hdr_cluster_count = 0, stegger = st, clusters = (\<lambda>_. None),
                  root_entry = \<lparr> e_filename = replicate FILENAME_SIZE 0, e_size = 0x80000000,
                                 e_cluster = 0 \<rparr>,
                  gfs_free_clusters = 0 \<rparr>
      in case ghostfs_check md5 gfs of
           (Inl e, g) \<Rightarrow> Inl e
         | (Inr _, g) \<Rightarrow>
             (case mount_count_free g [1..<unat (hdr_cluster_count g)] of
                (Inl e, g') \<Rightarrow> Inl e
              | (Inr _, g') \<Rightarrow> Inr g'))"


subsection \<open>Notions used in the statements\<close>


text \<open>A mounted filesystem of two clusters on a carrier of zero bytes: an empty root
  directory and one free cluster.\<close>

definition zero_cluster :: cluster where
  "zero_cluster = \<lparr> c_data = replicate CLUSTER_DATA 0, c_next = 0, c_used = 0, c_dirty = 0 \<rparr>"

definition mounted_root_entry :: dir_entry where
  "mounted_root_entry =
     \<lparr> e_filename = replicate FILENAME_SIZE 0, e_size = 0x80000000, e_cluster = 0 \<rparr>"

definition gfs_two :: ghostfs where
  "gfs_two =
     \<lparr> hdr_cluster_count = 2, stegger = replicate (HEADER_SIZE + 2 * CLUSTER_SIZE) 0,
       clusters = [0 \<mapsto> zero_cluster, 1 \<mapsto> zero_cluster],
       root_entry = mounted_root_entry,
       gfs_free_clusters = 1 \<rparr>"

text \<open>The iterator at slot \<open>i\<close> of cluster \<open>c\<close>.\<close>

definition iter_at :: "nat \<Rightarrow> nat \<Rightarrow> dir_iter" where
  "iter_at c i = \<lparr> it_cluster = c, it_entry = ClusterEntry c i, it_entry_nr = i \<rparr>"

text \<open>What \<open>ghostfs_mount\<close> compares: the digest of the stored header and root cluster
  against the stored digest; the cluster count in the stored header; and whether cluster
  \<open>i\<close> lies inside the byte stream.\<close>

definition digest_ok :: "(byte list \<Rightarrow> byte list) \<Rightarrow> byte list \<Rightarrow> bool" where
  "digest_ok md5 st =
     (md5 (take 2 (drop 16 st) @ take CLUSTER_SIZE (drop HEADER_SIZE st)) = take 16 st)"

definition stored_count :: "byte list \<Rightarrow> nat" where
  "stored_count st = unat (u16_of_bytes (take 2 (drop 16 st)))"

definition in_store :: "byte list \<Rightarrow> nat \<Rightarrow> bool" where
  "in_store st i = (HEADER_SIZE + i * CLUSTER_SIZE + CLUSTER_SIZE \<le> length st)"

text \<open>A stand-in for MD5 in the examples (a 16-byte digest that depends on the length of
  its input only), and three byte streams: a consistent one with two clusters, one whose
  header announces two clusters where only one fits, and one with a wrong digest.\<close>

definition toy_md5 :: "byte list \<Rightarrow> byte list" where
  "toy_md5 bs = replicate 16 (of_nat (length bs))"

definition store_two :: "byte list" where
  "store_two = replicate 16 2 @ [2, 0] @ replicate (2 * CLUSTER_SIZE) 0"

definition store_short :: "byte list" where
  "store_short = replicate 16 2 @ [2, 0] @ replicate CLUSTER_SIZE 0"

definition store_tampered :: "byte list" where
  "store_tampered = replicate 16 3 @ [2, 0] @ replicate (2 * CLUSTER_SIZE) 0"

text \<open>Cluster \<open>i\<close> is in the cache; every cluster from 1 on is (as after a mount); the free
  clusters the allocator can hand out; and a list of clusters chained by their next
  pointers.\<close>

definition cached :: "ghostfs \<Rightarrow> nat \<Rightarrow> bool" where
  "cached gfs i = (clusters gfs i \<noteq> None)"

definition loaded :: "ghostfs \<Rightarrow> bool" where
  "loaded gfs = (\<forall>i. 1 \<le> i \<and> i < unat (hdr_cluster_count gfs) \<longrightarrow> cached gfs i)"

definition free_set :: "ghostfs \<Rightarrow> nat set" where
  "free_set gfs = {i. 1 \<le> i \<and> i < unat (hdr_cluster_count gfs) \<and> c_used (cl gfs i) = 0}"

definition linked :: "ghostfs \<Rightarrow> nat list \<Rightarrow> bool" where
  "linked g cs = (\<forall>k. Suc k < length cs \<longrightarrow> unat (c_next (cl g (cs ! k))) = cs ! Suc k)"

text \<open>The state of the scan of \<open>alloc_clusters\<close> started on \<open>g0\<close>, after the clusters
  \<open>cs\<close> have been claimed; its result when it succeeds with the clusters \<open>cs\<close>; and its
  result when it gives up.\<close>

definition alloc_inv ::
  "ghostfs \<Rightarrow> ghostfs \<Rightarrow> bool \<Rightarrow> nat list \<Rightarrow> nat \<Rightarrow> nat \<Rightarrow> nat \<Rightarrow> nat option \<Rightarrow> bool" where
  "alloc_inv g0 g zero cs pos alloc first prev \<longleftrightarrow>
     hdr_cluster_count g = hdr_cluster_count g0 \<and>
     stegger g = stegger g0 \<and> root_entry g = root_entry g0 \<and>
     (\<forall>i. cached g0 i \<longrightarrow> cached g i) \<and>
     length cs = alloc \<and> distinct cs \<and> 1 \<le> pos \<and>
     (\<forall>c \<in> set cs. 1 \<le> c \<and> c < pos \<and> c < unat (hdr_cluster_count g0) \<and> c_used (cl g0 c) = 0
         \<and> c_used (cl g c) = 1 \<and> c_dirty (cl g c) = 1
         \<and> c_data (cl g c) = (if zero then replicate CLUSTER_DATA 0 else c_data (cl g0 c))) \<and>
     (\<forall>i. i \<notin> set cs \<longrightarrow> cl g i = cl g0 i) \<and>
     linked g cs \<and>
     first = (case cs of [] \<Rightarrow> 0 | c # _ \<Rightarrow> c) \<and>
     prev = (if cs = [] then None else Some (last cs)) \<and>
     gfs_free_clusters g = gfs_free_clusters g0 - of_nat alloc"

definition alloc_done :: "ghostfs \<Rightarrow> ghostfs \<Rightarrow> bool \<Rightarrow> nat list \<Rightarrow> bool" where
  "alloc_done g0 g' zero cs \<longleftrightarrow>
     hdr_cluster_count g' = hdr_cluster_count g0 \<and>
     stegger g' = stegger g0 \<and> root_entry g' = root_entry g0 \<and>
     (\<forall>i. cached g0 i \<longrightarrow> cached g' i) \<and>
     distinct cs \<and> set cs \<subseteq> free_set g0 \<and>
     (\<forall>c \<in> set cs. c_used (cl g' c) = 1 \<and> c_dirty (cl g' c) = 1
         \<and> c_data (cl g' c) = (if zero then replicate CLUSTER_DATA 0 else c_data (cl g0 c))) \<and>
     (\<forall>i. i \<notin> set cs \<longrightarrow> cl g' i = cl g0 i) \<and>
     linked g' cs \<and> (cs \<noteq> [] \<longrightarrow> c_next (cl g' (last cs)) = 0) \<and>
     gfs_free_clusters g' = gfs_free_clusters g0 - of_nat (length cs)"

definition alloc_failed :: "ghostfs \<Rightarrow> ghostfs \<Rightarrow> bool" where
  "alloc_failed g0 g' \<longleftrightarrow>
     hdr_cluster_count g' = hdr_cluster_count g0 \<and>
     stegger g' = stegger g0 \<and> root_entry g' = root_entry g0 \<and>
     (\<forall>i. cached g0 i \<longrightarrow> cached g' i) \<and>
     gfs_free_clusters g' = gfs_free_clusters g0 \<and>
     (\<forall>i. c_used (cl g' i) = c_used (cl g0 i)) \<and>
     (\<forall>i. i \<notin> free_set g0 \<longrightarrow> cl g' i = cl g0 i)"

text \<open>Mounted filesystems of two clusters, by the contents of cluster 0, of cluster 1 and
  of the free-cluster counter.\<close>

definition mk2 :: "cluster \<Rightarrow> cluster \<Rightarrow> 16 word \<Rightarrow> ghostfs" where
  "mk2 a b n =
     \<lparr> hdr_cluster_count = 2, stegger = replicate (HEADER_SIZE + 2 * CLUSTER_SIZE) 0,
       clusters = [0 \<mapsto> a, 1 \<mapsto> b], root_entry = mounted_root_entry, gfs_free_clusters = n \<rparr>"

text \<open>Three runs on the fresh two-cluster filesystem. The first creates \<open>/a\<close>, opens it
  and writes five bytes, and yields the open handle; the second goes on to truncate
  \<open>/a\<close> to size 0 and to unlink it; the third makes a directory \<open>/d\<close>, renames it to
  \<open>/e\<close>, looks \<open>/e\<close> up and yields whether the entry found is a directory.\<close>

definition after_create_write :: "(dir_iter \<times> ghostfs) option" where
  "after_create_write =
     Option.bind (ghostfs_create gfs_two (str ''/a''))
       (\<lambda>(_, g1). Option.bind (ghostfs_open g1 (str ''/a''))
          (\<lambda>(h, g2). case h of
              Inl e \<Rightarrow> None
            | Inr it \<Rightarrow>
                Option.bind (ghostfs_write g2 it (str ''hello'') 0)
                  (\<lambda>(w, g3). if w = Inr 5 then Some (it, g3) else None)))"

definition run_truncate_unlink :: "((errno + unit) \<times> ghostfs) option" where
  "run_truncate_unlink =
     Option.bind after_create_write
       (\<lambda>(_, g3). Option.bind (ghostfs_truncate g3 (str ''/a'') 0)
          (\<lambda>(r, g4). if r = Inr () then ghostfs_unlink g4 (str ''/a'') else None))"

definition run_rename_dir :: "((errno + unit) \<times> bool) option" where
  "run_rename_dir =
     Option.bind (ghostfs_mkdir gfs_two (str ''/d''))
       (\<lambda>(_, g1). Option.bind (ghostfs_rename g1 (str ''/d'') (str ''/e''))
          (\<lambda>(r, g2). Option.bind (dir_iter_lookup g2 (str ''/e'') False)
             (\<lambda>(h, g3). case h of
                 Inl e \<Rightarrow> None
               | Inr it \<Rightarrow> Some (r, dir_entry_is_directory (entry_get g3 (it_entry it))))))"

text \<open>The size word stored at byte offset \<open>k\<close> of a cluster's data, and the slots of a
  directory cluster that lie inside its data.\<close>

definition slot_size :: "byte list \<Rightarrow> nat \<Rightarrow> 32 word" where
  "slot_size d k = u32_of_bytes [d ! k, d ! (k + 1), d ! (k + 2), d ! (k + 3)]"

definition slot_in_cluster :: "ghostfs \<Rightarrow> entry_ptr \<Rightarrow> bool" where
  "slot_in_cluster g p =
     (case p of RootEntry \<Rightarrow> False
      | ClusterEntry c i \<Rightarrow> DIR_ENTRY_SIZE * i + DIR_ENTRY_SIZE \<le> length (c_data (cl g c)))"

text \<open>Formatting a byte stream and mounting the result; the root directory cluster that
  \<open>ghostfs_format\<close> writes; the handle \<open>ghostfs_mount\<close> returns for one cluster on the byte
  stream \<open>st'\<close>, and the byte stream \<open>ghostfs_format\<close> leaves when one cluster fits; a
  directory cluster without entries and without successor; and a file name that is
  neither empty nor too long and has no NUL and no slash.\<close>

definition format_mount :: "(byte list \<Rightarrow> byte list) \<Rightarrow> byte list \<Rightarrow> errno + ghostfs" where
  "format_mount md5 st =
     (case ghostfs_format md5 st of
        (Inl e, st') \<Rightarrow> Inl e
      | (Inr _, st') \<Rightarrow> ghostfs_mount md5 st')"

definition formatted_root :: "byte list \<Rightarrow> cluster" where
  "formatted_root st =
     (let c = unmark_cluster (cluster_of_bytes (take CLUSTER_SIZE (drop HEADER_SIZE st)))
      in c\<lparr>c_next := 0, c_data := format_dirents (c_data c) 0\<rparr>)"

definition fresh_one :: "byte list \<Rightarrow> ghostfs" where
  "fresh_one st' = \<lparr> hdr_cluster_count = 1, stegger = st', clusters = (\<lambda>_. None),
                      root_entry = mounted_root_entry, gfs_free_clusters = 0 \<rparr>"

definition formatted_one :: "(byte list \<Rightarrow> byte list) \<Rightarrow> byte list \<Rightarrow> byte list" where
  "formatted_one md5 st =
     md5 (bytes_of_u16 1 @ bytes_of_cluster (formatted_root st)) @ bytes_of_u16 1
       @ bytes_of_cluster (formatted_root st)"

definition empty_dir :: "cluster \<Rightarrow> bool" where
  "empty_dir c \<longleftrightarrow> c_next c = 0 \<and> length (c_data c) = CLUSTER_DATA
     \<and> (\<forall>j < CLUSTER_DIRENTS. c_data c ! (DIR_ENTRY_SIZE * j) = 0)"

definition plain_name :: "byte list \<Rightarrow> bool" where
  "plain_name name \<longleftrightarrow> name \<noteq> [] \<and> 0 \<notin> set name \<and> 47 \<notin> set name
     \<and> length name \<le> FILENAME_SIZE - 1"

text \<open>A run on the smallest carrier (18 + 4096 zero bytes): format, mount, and create the
  file \<open>/a\<close>. It yields the cluster count of the mounted handle and the code of the
  create.\<close>

definition run_format_create :: "(16 word \<times> (errno + unit)) option" where
  "run_format_create =
     (case format_mount toy_md5 (replicate (HEADER_SIZE + CLUSTER_SIZE) 0) of
        Inl e \<Rightarrow> None
      | Inr g \<Rightarrow> map_option (\<lambda>(r, g'). (hdr_cluster_count g, r)) (ghostfs_create g (str ''/a'')))"

text \<open>The cluster chain of a file: following the next pointers from cluster number \<open>nr\<close>
  visits the clusters \<open>cs\<close>, each of them a cached, used cluster from 1 on with a full data
  area, and arrives at the pointer value \<open>e\<close> (0 at the end of a file). \<open>file_bytes\<close> is the
  data of the clusters \<open>cs\<close> in a row.\<close>

fun file_chain :: "ghostfs \<Rightarrow> nat \<Rightarrow> nat list \<Rightarrow> nat \<Rightarrow> bool" where
  "file_chain g nr [] e = (nr = e)"
| "file_chain g nr (c # cs) e =
     (nr = c \<and> 1 \<le> c \<and> c < unat (hdr_cluster_count g) \<and> cached g c \<and> c_used (cl g c) \<noteq> 0
      \<and> length (c_data (cl g c)) = CLUSTER_DATA
      \<and> file_chain g (unat (c_next (cl g c))) cs e)"

definition file_bytes :: "ghostfs \<Rightarrow> nat list \<Rightarrow> byte list" where
  "file_bytes g cs = concat (map (\<lambda>c. c_data (cl g c)) cs)"

text \<open>\<open>touched g g' X\<close>: the handle \<open>g'\<close> differs from \<open>g\<close> at most in the data bytes and
  the dirty flags of the clusters in \<open>X\<close>.\<close>

definition touched :: "ghostfs \<Rightarrow> ghostfs \<Rightarrow> nat set \<Rightarrow> bool" where
  "touched g g' X \<longleftrightarrow>
     hdr_cluster_count g' = hdr_cluster_count g \<and>
     (\<forall>x. cached g x \<longrightarrow> cached g' x) \<and>
     (\<forall>x. x \<notin> X \<longrightarrow> cl g' x = cl g x) \<and>
     (\<forall>x. c_next (cl g' x) = c_next (cl g x) \<and> c_used (cl g' x) = c_used (cl g x)
          \<and> length (c_data (cl g' x)) = length (c_data (cl g x)))"

text \<open>An open file: the iterator \<open>it\<close> of a \<^verbatim>\<open>struct ghostfs_entry\<close> points to a slot of a
  directory cluster that is in the cache and not free, the entry is not a directory, its
  chain is \<open>cs\<close> and has as many clusters as its size needs; every cluster from 1 on is in
  the cache, as after a mount.\<close>

definition open_file :: "ghostfs \<Rightarrow> dir_iter \<Rightarrow> nat list \<Rightarrow> bool" where
  "open_file g it cs \<longleftrightarrow>
     loaded g \<and>
     (case it_entry it of
        RootEntry \<Rightarrow> False
      | ClusterEntry d i \<Rightarrow>
          it_cluster it = d \<and> cached g d \<and> d \<notin> free_set g \<and> d \<notin> set cs
          \<and> slot_in_cluster g (ClusterEntry d i)) \<and>
     \<not> dir_entry_is_directory (entry_get g (it_entry it)) \<and>
     file_chain g (unat (e_cluster (entry_get g (it_entry it)))) cs 0 \<and> distinct cs \<and>
     int (length cs) = size_to_clusters (uint (e_size (entry_get g (it_entry it))))"

text \<open>The \<^verbatim>\<open>memset\<close> of \<open>do_truncate\<close> on the last cluster \<open>last cs\<close> of the chain, with
  \<open>used\<close> bytes of it in use.\<close>

definition zero_tail :: "ghostfs \<Rightarrow> nat list \<Rightarrow> int \<Rightarrow> ghostfs" where
  "zero_tail g cs used =
     (if used \<noteq> 0 then
        (case (if cs = [] then None else Some (last cs)) of
           None \<Rightarrow> g
         | Some p \<Rightarrow>
             mark_cluster
               (upd_cluster g p
                  (\<lambda>k. k\<lparr>c_data := memcpy_at (c_data k) (nat used)
                                       (replicate (CLUSTER_DATA - nat used) 0)\<rparr>)) p)
      else g)"

text \<open>The size of an open file; a byte string written over a file whose byte \<open>k\<close> is
  \<open>f k\<close>; and a file that holds the bytes \<open>f\<close> up to its size, where \<open>f\<close> is zero from the
  size on.\<close>

definition file_size :: "ghostfs \<Rightarrow> dir_iter \<Rightarrow> nat" where
  "file_size g it = unat (e_size (entry_get g (it_entry it)))"

definition overlay :: "(nat \<Rightarrow> byte) \<Rightarrow> byte list \<Rightarrow> nat \<Rightarrow> nat \<Rightarrow> byte" where
  "overlay f buf off = (\<lambda>k. if off \<le> k \<and> k < off + length buf then buf ! (k - off) else f k)"

definition file_holds :: "ghostfs \<Rightarrow> dir_iter \<Rightarrow> nat list \<Rightarrow> (nat \<Rightarrow> byte) \<Rightarrow> bool" where
  "file_holds g it cs f \<longleftrightarrow>
     (\<forall>k < file_size g it. file_bytes g cs ! k = f k) \<and> (\<forall>k \<ge> file_size g it. f k = 0)"

text \<open>A sequence of \<open>ghostfs_write\<close> calls \<open>(buf, offset)\<close> on one open file, with the list
  of their return values; and the reference they are compared with: the writes that
  returned a byte count, applied in order to the file \<open>f\<close>, so that the last writer of a
  byte wins.\<close>

fun run_writes ::
  "ghostfs \<Rightarrow> dir_iter \<Rightarrow> (byte list \<times> int) list \<Rightarrow> ((errno + nat) list \<times> ghostfs) option" where
  "run_writes g it [] = Some ([], g)"
| "run_writes g it ((buf, off) # ws) =
     Option.bind (ghostfs_write g it buf off)
       (\<lambda>(r, g'). map_option (\<lambda>(rs, g''). (r # rs, g'')) (run_writes g' it ws))"

fun lww :: "((byte list \<times> int) \<times> (errno + nat)) list \<Rightarrow> (nat \<Rightarrow> byte) \<Rightarrow> nat \<Rightarrow> byte" where
  "lww [] f = f"
| "lww (((buf, off), r) # ws) f =
     lww ws (case r of Inl e \<Rightarrow> f | Inr k \<Rightarrow> overlay f buf (nat off))"

text \<open>A file as \<open>create_entry\<close> leaves it: size 0 and no cluster, in a slot of a directory
  cluster that is in the cache and in use, on a handle whose cache holds every cluster
  from 1 on. \<open>created_a\<close> is the handle and the iterator after \<open>/a\<close> has been created and
  opened on the two-cluster filesystem.\<close>

definition fresh_file :: "ghostfs \<Rightarrow> dir_iter \<Rightarrow> bool" where
  "fresh_file g it \<longleftrightarrow>
     loaded g \<and>
     (case it_entry it of
        RootEntry \<Rightarrow> False
      | ClusterEntry d i \<Rightarrow>
          it_cluster it = d \<and> cached g d \<and> d \<notin> free_set g \<and> slot_in_cluster g (ClusterEntry d i)) \<and>
     e_size (entry_get g (it_entry it)) = 0 \<and> e_cluster (entry_get g (it_entry it)) = 0"

definition created_a :: "(dir_iter \<times> ghostfs) option" where
  "created_a =
     Option.bind (ghostfs_create gfs_two (str ''/a''))
       (\<lambda>(_, g1). Option.bind (ghostfs_open g1 (str ''/a''))
          (\<lambda>(h, g2). case h of Inl e \<Rightarrow> None | Inr it \<Rightarrow> Some (it, g2)))"

text \<open>A run on the fresh two-cluster filesystem, every step of which has to succeed:
  \<open>/a\<close> is created, opened and written, truncated to size 0 and, after \<open>mkdir /d\<close>,
  unlinked; then \<open>/d/f\<close> is created, opened and written once, at offset 56. The run
  yields the return value of that write, the size and the first cluster of \<open>/d/f\<close>
  afterwards, and what \<open>ghostfs_read\<close> at offset 0 with the file's size as length returns.\<close>

definition run_reused_dir_cluster ::
  "((errno + nat) \<times> 32 word \<times> 16 word \<times> (errno + byte list)) option" where
  "run_reused_dir_cluster =
     Option.bind after_create_write (\<lambda>(_, g3).
     Option.bind (ghostfs_truncate g3 (str ''/a'') 0) (\<lambda>(r4, g4). if r4 \<noteq> Inr () then None else
     Option.bind (ghostfs_mkdir g4 (str ''/d'')) (\<lambda>(r5, g5). if r5 \<noteq> Inr () then None else
     Option.bind (ghostfs_unlink g5 (str ''/a'')) (\<lambda>(r6, g6). if r6 \<noteq> Inr () then None else
     Option.bind (ghostfs_create g6 (str ''/d/f'')) (\<lambda>(r7, g7). if r7 \<noteq> Inr () then None else
     Option.bind (ghostfs_open g7 (str ''/d/f'')) (\<lambda>(h, g8). case h of Inl e \<Rightarrow> None | Inr it \<Rightarrow>
     Option.bind (ghostfs_write g8 it (str ''hello'') 56) (\<lambda>(w, g9).
       Some (w, e_size (entry_get g9 (it_entry it)), e_cluster (entry_get g9 (it_entry it)),
             fst (ghostfs_read g9 it (file_size g9 it) 0)))))))))"

section \<open>Properties\<close>

subsection \<open>Directory iterator\<close>






subsection \<open>Zero-length write to an empty file\<close>

lemma dir_entry_at_zero_cluster:
  "dir_entry_at (replicate CLUSTER_DATA 0) 0
     = \<lparr> e_filename = replicate FILENAME_SIZE 0, e_size = 0, e_cluster = 0 \<rparr>"
  by (simp add: dir_entry_at_def CLUSTER_DATA_def FILENAME_SIZE_def DIR_ENTRY_SIZE_def
                u32_of_bytes_def u16_of_bytes_def)

text \<open>
  C10. On an entry with size 0 and no cluster, \<open>ghostfs_write\<close> of zero bytes at offset 0
  does not return 0: it fails with \<open>EIO\<close>, because \<open>cluster_at\<close> walks the chain before
  the loop checks whether anything is left to write; \<open>ghostfs_read\<close> of zero bytes on the
  same entry returns 0 bytes. Neither changes the filesystem.
\<close>

theorem write_zero_bytes_empty_file:
  assumes "e_size (entry_get gfs (it_entry gentry)) = 0"
    and "e_cluster (entry_get gfs (it_entry gentry)) = 0"
  shows "ghostfs_write gfs gentry [] 0 = Some (Inl EIO, gfs)
         \<and> ghostfs_read gfs gentry 0 0 = (Inr [], gfs)"
  using assms by (simp add: ghostfs_write_def ghostfs_read_def)

theorem write_zero_bytes_empty_file_witness:
  "ghostfs_write gfs_two (iter_at 0 0) [] 0 = Some (Inl EIO, gfs_two)
   \<and> ghostfs_read gfs_two (iter_at 0 0) 0 0 = (Inr [], gfs_two)"
  by (rule write_zero_bytes_empty_file)
     (simp_all add: entry_get_def cl_def gfs_two_def iter_at_def zero_cluster_def
                    dir_entry_at_zero_cluster)

subsection \<open>Little-endian fields\<close>

lemma byte_bit_high: "8 \<le> k \<Longrightarrow> \<not> bit (a :: byte) k"
  using bit_imp_le_length [of a k] by auto

lemma u16_bytes_roundtrip: "bytes_of_u16 (u16_of_bytes [a, b]) = [a, b]"
  unfolding bytes_of_u16_def u16_of_bytes_def
  by (auto intro!: bit_word_eqI simp: bit_simps byte_bit_high)

lemma u16_of_bytes_of_u16: "u16_of_bytes (bytes_of_u16 w) = w"
  unfolding bytes_of_u16_def u16_of_bytes_def
  by (rule bit_word_eqI) (auto simp: bit_simps)

lemma u32_of_bytes_of_u32: "u32_of_bytes (bytes_of_u32 w) = w"
  unfolding bytes_of_u32_def u32_of_bytes_def
proof (rule bit_word_eqI)
  fix n assume "n < LENGTH(32)"
  then have n: "n < 32" by simp
  let ?bs = "[ucast w, ucast (drop_bit 8 w), ucast (drop_bit 16 w), ucast (drop_bit 24 w)] :: byte list"
  consider "n < 8" | "8 \<le> n \<and> n < 16" | "16 \<le> n \<and> n < 24" | "24 \<le> n \<and> n < 32"
    using n by linarith
  then show "bit (ucast (?bs ! 0) OR push_bit 8 (ucast (?bs ! 1)) OR push_bit 16 (ucast (?bs ! 2))
                  OR push_bit 24 (ucast (?bs ! 3)) :: 32 word) n = bit w n"
    by cases (auto simp: bit_simps)
qed

lemma u32_bytes_roundtrip: "bytes_of_u32 (u32_of_bytes [a, b, c, d]) = [a, b, c, d]"
  unfolding bytes_of_u32_def u32_of_bytes_def
  by (auto intro!: bit_word_eqI simp: bit_simps byte_bit_high)

lemma bytes_of_u16_roundtrip: "length hdr = 2 \<Longrightarrow> bytes_of_u16 (u16_of_bytes hdr) = hdr"
proof -
  assume "length hdr = 2"
  then obtain a b where "hdr = [a, b]"
    by (cases hdr; cases "tl hdr") auto
  then show ?thesis using u16_bytes_roundtrip by simp
qed

subsection \<open>Writing a cluster\<close>




subsection \<open>Mount and the digest\<close>

lemma ghostfs_check_result:
  assumes "HEADER_SIZE + CLUSTER_SIZE \<le> length (stegger gfs)"
  shows "ghostfs_check md5 gfs =
           (if digest_ok md5 (stegger gfs) then Inr () else Inl EIO,
            gfs\<lparr>hdr_cluster_count := u16_of_bytes (take 2 (drop 16 (stegger gfs)))\<rparr>)"
proof -
  have l: "length (take 2 (drop 16 (stegger gfs))) = 2"
    using assms by (simp add: HEADER_SIZE_def CLUSTER_SIZE_def)
  show ?thesis
    using assms bytes_of_u16_roundtrip [OF l]
    by (simp add: ghostfs_check_def stegger_read_def digest_ok_def HEADER_SIZE_def
                  CLUSTER_SIZE_def)
qed

lemma cluster_get_fields:
  "cluster_get g n = (r, g') \<Longrightarrow>
     hdr_cluster_count g' = hdr_cluster_count g \<and> stegger g' = stegger g
     \<and> gfs_free_clusters g' = gfs_free_clusters g \<and> root_entry g' = root_entry g"
  by (auto simp: cluster_get_def split: if_splits option.splits sum.splits)

lemma mount_count_free_ok:
  "\<forall>i \<in> set ns. i < unat (hdr_cluster_count g) \<and> in_store (stegger g) i \<Longrightarrow>
   \<exists>g'. mount_count_free g ns = (Inr (), g') \<and> hdr_cluster_count g' = hdr_cluster_count g
        \<and> stegger g' = stegger g \<and> root_entry g' = root_entry g
        \<and> (\<forall>i \<in> set ns. clusters g' i \<noteq> None)
        \<and> (\<forall>i. clusters g i \<noteq> None \<longrightarrow> clusters g' i \<noteq> None)"
proof (induction ns arbitrary: g)
  case Nil
  then show ?case by simp
next
  case (Cons n ns)
  have "\<exists>c g1. cluster_get g n = (Inr c, g1) \<and> clusters g1 n \<noteq> None
            \<and> (\<forall>i. clusters g i \<noteq> None \<longrightarrow> clusters g1 i \<noteq> None)"
  proof (cases "clusters g n")
    case None
    then show ?thesis using Cons.prems
      by (simp add: cluster_get_def read_cluster_def stegger_read_def in_store_def)
  next
    case (Some a)
    then show ?thesis using Cons.prems by (simp add: cluster_get_def)
  qed
  then obtain c g1 where get: "cluster_get g n = (Inr c, g1)" and c1: "clusters g1 n \<noteq> None"
    and mono: "\<forall>i. clusters g i \<noteq> None \<longrightarrow> clusters g1 i \<noteq> None"
    by blast
  note f = cluster_get_fields [OF get]
  let ?g2 = "if c_used (cl g1 c) = 0
             then g1\<lparr>gfs_free_clusters := gfs_free_clusters g1 + 1\<rparr> else g1"
  have p: "\<forall>i \<in> set ns. i < unat (hdr_cluster_count ?g2) \<and> in_store (stegger ?g2) i"
    using Cons.prems f by simp
  from Cons.IH [OF p] obtain g' where
    r: "mount_count_free ?g2 ns = (Inr (), g')" "hdr_cluster_count g' = hdr_cluster_count ?g2"
       "stegger g' = stegger ?g2" "root_entry g' = root_entry ?g2"
       "\<forall>i \<in> set ns. clusters g' i \<noteq> None"
       "\<forall>i. clusters ?g2 i \<noteq> None \<longrightarrow> clusters g' i \<noteq> None"
    by blast
  have "mount_count_free g (n # ns) = (Inr (), g')" using get r(1) by simp
  moreover have "clusters g' n \<noteq> None" using r(6) c1 by (simp split: if_splits)
  moreover have "\<forall>i. clusters g i \<noteq> None \<longrightarrow> clusters g' i \<noteq> None"
    using r(6) mono by (simp split: if_splits)
  ultimately show ?case using r f by (auto split: if_splits)
qed

lemma mount_count_free_fail:
  "distinct ns \<Longrightarrow> \<forall>i \<in> set ns. i < unat (hdr_cluster_count g) \<and> clusters g i = None \<Longrightarrow>
   \<exists>i \<in> set ns. \<not> in_store (stegger g) i \<Longrightarrow>
   fst (mount_count_free g ns) = Inl ERANGE"
proof (induction ns arbitrary: g)
  case Nil
  then show ?case by simp
next
  case (Cons n ns)
  show ?case
  proof (cases "in_store (stegger g) n")
    case False
    then show ?thesis using Cons.prems(2)
      by (simp add: cluster_get_def read_cluster_def stegger_read_def in_store_def)
  next
    case True
    then obtain c where get: "cluster_get g n = (Inr n, g\<lparr>clusters := (clusters g)(n \<mapsto> c)\<rparr>)"
      using Cons.prems(2)
      by (simp add: cluster_get_def read_cluster_def stegger_read_def in_store_def)
    let ?g1 = "g\<lparr>clusters := (clusters g)(n \<mapsto> c)\<rparr>"
    let ?g2 = "if c_used (cl ?g1 n) = 0
               then ?g1\<lparr>gfs_free_clusters := gfs_free_clusters ?g1 + 1\<rparr> else ?g1"
    have "fst (mount_count_free ?g2 ns) = Inl ERANGE"
    proof (rule Cons.IH)
      show "distinct ns" using Cons.prems(1) by simp
      show "\<forall>i\<in>set ns. i < unat (hdr_cluster_count ?g2) \<and> clusters ?g2 i = None"
        using Cons.prems(1,2) by auto
      show "\<exists>i\<in>set ns. \<not> in_store (stegger ?g2) i"
        using Cons.prems(3) True by auto
    qed
    then show ?thesis using get by simp
  qed
qed

lemma mount_after_check:
  assumes "HEADER_SIZE + CLUSTER_SIZE \<le> length st" and "digest_ok md5 st"
    and "\<not> (\<forall>i \<in> {1..<stored_count st}. in_store st i)"
  shows "ghostfs_mount md5 st = Inl ERANGE"
proof -
  let ?g0 = "\<lparr> hdr_cluster_count = 0, stegger = st, clusters = (\<lambda>_. None),
               root_entry = \<lparr> e_filename = replicate FILENAME_SIZE 0, e_size = 0x80000000,
                              e_cluster = 0 \<rparr>,
               gfs_free_clusters = 0 \<rparr>"
  let ?g1 = "?g0\<lparr>hdr_cluster_count := u16_of_bytes (take 2 (drop 16 st))\<rparr>"
  have chk: "ghostfs_check md5 ?g0 = (Inr (), ?g1)"
    using ghostfs_check_result [of ?g0 md5] assms(1,2) by simp
  have cnt: "unat (hdr_cluster_count ?g1) = stored_count st" by (simp add: stored_count_def)
  have "fst (mount_count_free ?g1 [1..<stored_count st]) = Inl ERANGE"
  proof (rule mount_count_free_fail)
    show "distinct [1..<stored_count st]" by simp
    show "\<forall>i\<in>set [1..<stored_count st]. i < unat (hdr_cluster_count ?g1) \<and> clusters ?g1 i = None"
      using cnt by simp
    show "\<exists>i\<in>set [1..<stored_count st]. \<not> in_store (stegger ?g1) i" using assms(3) by simp
  qed
  then show ?thesis using chk cnt
    by (auto simp: ghostfs_mount_def split: prod.splits sum.splits)
qed

text \<open>
  C4 (as the code has it). On a byte stream that holds at least the superblock and
  cluster 0, \<open>ghostfs_mount\<close> recomputes the digest of the stored header and cluster 0 and
  fails with \<open>EIO\<close>, returning no handle, when it differs from the stored digest. When the
  digests are equal it goes on to load clusters \<open>1 .. cluster_count - 1\<close>: it succeeds
  when all of them lie inside the byte stream, and fails with the read's out-of-range
  error otherwise.
\<close>

theorem mount_checks_digest:
  assumes "HEADER_SIZE + CLUSTER_SIZE \<le> length st"
  shows "(\<not> digest_ok md5 st \<longrightarrow> ghostfs_mount md5 st = Inl EIO)
         \<and> (digest_ok md5 st \<and> (\<forall>i \<in> {1..<stored_count st}. in_store st i) \<longrightarrow>
              (\<exists>g. ghostfs_mount md5 st = Inr g \<and> unat (hdr_cluster_count g) = stored_count st
                   \<and> stegger g = st \<and> (\<forall>i \<in> {1..<stored_count st}. clusters g i \<noteq> None)))
         \<and> (digest_ok md5 st \<and> \<not> (\<forall>i \<in> {1..<stored_count st}. in_store st i) \<longrightarrow>
              ghostfs_mount md5 st = Inl ERANGE)"
proof -
  let ?g0 = "\<lparr> hdr_cluster_count = 0, stegger = st, clusters = (\<lambda>_. None),
               root_entry = \<lparr> e_filename = replicate FILENAME_SIZE 0, e_size = 0x80000000,
                              e_cluster = 0 \<rparr>,
               gfs_free_clusters = 0 \<rparr>"
  let ?g1 = "?g0\<lparr>hdr_cluster_count := u16_of_bytes (take 2 (drop 16 st))\<rparr>"
  have chk: "ghostfs_check md5 ?g0 = (if digest_ok md5 st then Inr () else Inl EIO, ?g1)"
    using ghostfs_check_result [of ?g0 md5] assms by simp
  have cnt: "unat (hdr_cluster_count ?g1) = stored_count st" by (simp add: stored_count_def)
  have a: "\<not> digest_ok md5 st \<longrightarrow> ghostfs_mount md5 st = Inl EIO"
    using chk by (simp add: ghostfs_mount_def)
  have b: "\<exists>g. ghostfs_mount md5 st = Inr g \<and> unat (hdr_cluster_count g) = stored_count st
                \<and> stegger g = st \<and> (\<forall>i \<in> {1..<stored_count st}. clusters g i \<noteq> None)"
    if d: "digest_ok md5 st" and r: "\<forall>i \<in> {1..<stored_count st}. in_store st i"
  proof -
    have "\<forall>i \<in> set [1..<stored_count st].
            i < unat (hdr_cluster_count ?g1) \<and> in_store (stegger ?g1) i"
      using r cnt by simp
    from mount_count_free_ok [OF this] obtain g' where
      "mount_count_free ?g1 [1..<stored_count st] = (Inr (), g')"
      "hdr_cluster_count g' = hdr_cluster_count ?g1" "stegger g' = stegger ?g1"
      "\<forall>i \<in> set [1..<stored_count st]. clusters g' i \<noteq> None"
      by blast
    then show ?thesis using chk d cnt by (simp add: ghostfs_mount_def)
  qed
  have c: "ghostfs_mount md5 st = Inl ERANGE"
    if "digest_ok md5 st" and "\<not> (\<forall>i \<in> {1..<stored_count st}. in_store st i)"
    using mount_after_check [OF assms that] .
  from a b c show ?thesis by blast
qed

lemma stored_count_examples:
  "stored_count store_two = 2" "stored_count store_short = 2" "stored_count store_tampered = 2"
  by (simp_all add: stored_count_def store_two_def store_short_def store_tampered_def
                    u16_of_bytes_def)

lemma digest_ok_examples:
  "digest_ok toy_md5 store_two" "digest_ok toy_md5 store_short"
  "\<not> digest_ok toy_md5 store_tampered"
  by (simp_all add: digest_ok_def toy_md5_def store_two_def store_short_def store_tampered_def
                    CLUSTER_SIZE_def HEADER_SIZE_def)

lemma store_lengths:
  "length store_two = HEADER_SIZE + 2 * CLUSTER_SIZE"
  "length store_short = HEADER_SIZE + CLUSTER_SIZE"
  "length store_tampered = HEADER_SIZE + 2 * CLUSTER_SIZE"
  by (simp_all add: store_two_def store_short_def store_tampered_def HEADER_SIZE_def)

lemma in_store_examples:
  "\<forall>i \<in> {1..<stored_count store_two}. in_store store_two i"
  "\<not> (\<forall>i \<in> {1..<stored_count store_short}. in_store store_short i)"
proof -
  show "\<forall>i \<in> {1..<stored_count store_two}. in_store store_two i"
    by (simp add: stored_count_examples in_store_def store_lengths CLUSTER_SIZE_def)
  have "\<not> in_store store_short 1"
    by (simp add: in_store_def store_lengths CLUSTER_SIZE_def)
  moreover have "1 \<in> {1..<stored_count store_short}"
    by (simp add: stored_count_examples)
  ultimately show "\<not> (\<forall>i \<in> {1..<stored_count store_short}. in_store store_short i)"
    by blast
qed

theorem mount_checks_digest_witness:
  "ghostfs_mount toy_md5 store_tampered = Inl EIO
   \<and> (\<exists>g. ghostfs_mount toy_md5 store_two = Inr g \<and> unat (hdr_cluster_count g) = 2
          \<and> stegger g = store_two \<and> clusters g 1 \<noteq> None)
   \<and> ghostfs_mount toy_md5 store_short = Inl ERANGE"
proof -
  have l1: "HEADER_SIZE + CLUSTER_SIZE \<le> length store_tampered"
    and l2: "HEADER_SIZE + CLUSTER_SIZE \<le> length store_two"
    and l3: "HEADER_SIZE + CLUSTER_SIZE \<le> length store_short"
    by (simp_all add: store_lengths)
  show ?thesis
    using mount_checks_digest [OF l1, of toy_md5] mount_checks_digest [OF l2, of toy_md5]
          mount_checks_digest [OF l3, of toy_md5] digest_ok_examples in_store_examples
    by (auto simp: stored_count_examples)
qed

text \<open>
  C4 (as claimed) fails: the stored digest of \<open>store_short\<close> equals the recomputed one,
  yet the mount does not succeed, because the header announces a cluster that the byte
  stream does not hold.
\<close>

theorem mount_fails_with_equal_digests:
  "digest_ok toy_md5 store_short \<and> ghostfs_mount toy_md5 store_short = Inl ERANGE"
proof -
  have "HEADER_SIZE + CLUSTER_SIZE \<le> length store_short"
    by (simp add: store_lengths)
  then show ?thesis
    using digest_ok_examples(2) in_store_examples(2) mount_after_check by blast
qed

subsection \<open>Allocator\<close>

lemma cl_upd_cluster [simp]: "cl (upd_cluster g p f) q = (if q = p then f (cl g p) else cl g q)"
  by (simp add: cl_def upd_cluster_def)

lemma cached_upd_cluster [simp]: "cached (upd_cluster g p f) q \<longleftrightarrow> q = p \<or> cached g q"
  by (simp add: upd_cluster_def cached_def)

lemma upd_cluster_fields [simp]:
  "hdr_cluster_count (upd_cluster g p f) = hdr_cluster_count g"
  "stegger (upd_cluster g p f) = stegger g"
  "root_entry (upd_cluster g p f) = root_entry g"
  "gfs_free_clusters (upd_cluster g p f) = gfs_free_clusters g"
  by (simp_all add: upd_cluster_def)

lemma cl_mark_cluster [simp]:
  "cl (mark_cluster g p) q = (if q = p then (cl g p)\<lparr>c_dirty := 1\<rparr> else cl g q)"
  by (simp add: mark_cluster_def)

lemma cached_mark_cluster [simp]: "cached (mark_cluster g p) q \<longleftrightarrow> q = p \<or> cached g q"
  by (simp add: mark_cluster_def)

lemma cached_free_update [simp]: "cached (g\<lparr>gfs_free_clusters := x\<rparr>) q = cached g q"
  by (simp add: cached_def)

lemma mark_cluster_fields [simp]:
  "hdr_cluster_count (mark_cluster g p) = hdr_cluster_count g"
  "stegger (mark_cluster g p) = stegger g"
  "root_entry (mark_cluster g p) = root_entry g"
  "gfs_free_clusters (mark_cluster g p) = gfs_free_clusters g"
  by (simp_all add: mark_cluster_def)

lemma cl_free_update [simp]: "cl (g\<lparr>gfs_free_clusters := x\<rparr>) q = cl g q"
  by (simp add: cl_def)

lemma cluster_get_cached:
  "n < unat (hdr_cluster_count g) \<Longrightarrow> cached g n \<Longrightarrow> cluster_get g n = (Inr n, g)"
  by (auto simp: cluster_get_def cached_def)

lemma unat_of_nat_u16: "n < 65536 \<Longrightarrow> unat (of_nat n :: 16 word) = n"
  by (simp add: unat_of_nat)

lemma unat_count_bound: "unat (w :: 16 word) < 65536"
  using unsigned_less [of w, where 'a = nat] by simp

text \<open>Releasing a linked list of claimed clusters.\<close>

lemma alloc_undo_linked:
  assumes "linked g cs" "distinct cs"
    and "\<forall>c \<in> set cs. c < unat (hdr_cluster_count g) \<and> cached g c"
  shows "\<exists>g'. alloc_undo g ret (case cs of [] \<Rightarrow> p | c # _ \<Rightarrow> c) (length cs) = (Inl ret, g')
           \<and> hdr_cluster_count g' = hdr_cluster_count g
           \<and> stegger g' = stegger g \<and> root_entry g' = root_entry g
           \<and> gfs_free_clusters g' = gfs_free_clusters g + of_nat (length cs)
           \<and> (\<forall>i. cached g i \<longrightarrow> cached g' i)
           \<and> (\<forall>i. c_used (cl g' i) = (if i \<in> set cs then 0 else c_used (cl g i)))
           \<and> (\<forall>i. i \<notin> set cs \<longrightarrow> cl g' i = cl g i)"
  using assms
proof (induction cs arbitrary: g p)
  case Nil
  then show ?case by simp
next
  case (Cons c cs)
  let ?g3 = "(mark_cluster (upd_cluster g c (\<lambda>k. k\<lparr>c_used := 0\<rparr>)) c)
               \<lparr>gfs_free_clusters := gfs_free_clusters g + 1\<rparr>"
  have get: "cluster_get g c = (Inr c, g)"
    using Cons.prems(3) by (simp add: cluster_get_cached)
  have nxt: "cs \<noteq> [] \<Longrightarrow> unat (c_next (cl ?g3 c)) = hd cs"
    using Cons.prems(1) [unfolded linked_def, rule_format, of 0] by (cases cs) auto
  have l: "linked ?g3 cs"
    unfolding linked_def
  proof (intro allI impI)
    fix k assume k: "Suc k < length cs"
    then have "cs ! k \<noteq> c" using Cons.prems(2) by auto
    moreover have "unat (c_next (cl g ((c # cs) ! Suc k))) = (c # cs) ! Suc (Suc k)"
      using Cons.prems(1) [unfolded linked_def, rule_format, of "Suc k"] k by simp
    ultimately show "unat (c_next (cl ?g3 (cs ! k))) = cs ! Suc k" by simp
  qed
  have d: "distinct cs" using Cons.prems(2) by simp
  have ld: "\<forall>c \<in> set cs. c < unat (hdr_cluster_count ?g3) \<and> cached ?g3 c"
    using Cons.prems(3) by simp
  from Cons.IH [OF l d ld, of "unat (c_next (cl ?g3 c))"] obtain g' where
    r: "alloc_undo ?g3 ret (case cs of [] \<Rightarrow> unat (c_next (cl ?g3 c)) | c # _ \<Rightarrow> c) (length cs) = (Inl ret, g')"
       "hdr_cluster_count g' = hdr_cluster_count ?g3"
       "stegger g' = stegger ?g3" "root_entry g' = root_entry ?g3"
       "gfs_free_clusters g' = gfs_free_clusters ?g3 + of_nat (length cs)"
       "\<forall>i. cached ?g3 i \<longrightarrow> cached g' i"
       "\<forall>i. c_used (cl g' i) = (if i \<in> set cs then 0 else c_used (cl ?g3 i))"
       "\<forall>i. i \<notin> set cs \<longrightarrow> cl g' i = cl ?g3 i"
    by blast
  have pos: "(case cs of [] \<Rightarrow> unat (c_next (cl ?g3 c)) | c # _ \<Rightarrow> c) = unat (c_next (cl ?g3 c))"
    using nxt by (cases cs) auto
  have "alloc_undo g ret c (Suc (length cs)) = (Inl ret, g')"
    using get r(1) pos by (simp add: Let_def)
  then show ?case using r(2-8) by (auto simp: add.commute add.left_commute)
qed

lemma alloc_inv_start: "alloc_inv g g zero [] 1 0 0 None"
  by (simp add: alloc_inv_def linked_def)

lemma alloc_inv_skip:
  "alloc_inv g0 g zero cs pos alloc first prev \<Longrightarrow>
   alloc_inv g0 g zero cs (pos + 1) alloc first prev"
  by (auto simp: alloc_inv_def)

lemma alloc_inv_claim:
  assumes inv: "alloc_inv g0 g zero cs pos alloc first prev"
    and pos: "pos < unat (hdr_cluster_count g)" and free: "c_used (cl g pos) = 0"
    and claim: "alloc_claim g zero pos pos first prev = (first', g')"
  shows "alloc_inv g0 g' zero (cs @ [pos]) (pos + 1) (alloc + 1) first' (Some pos)"
proof -
  have notin: "pos \<notin> set cs" using inv by (auto simp: alloc_inv_def)
  have p16: "unat (of_nat pos :: 16 word) = pos"
    using pos unat_count_bound [of "hdr_cluster_count g"] by (simp add: unat_of_nat_u16)
  have used0: "c_used (cl g0 pos) = 0" using inv notin free by (simp add: alloc_inv_def)
  show ?thesis
  proof (cases cs)
    case Nil
    then have "first = 0" "prev = None" using inv by (simp_all add: alloc_inv_def)
    then show ?thesis
      using inv pos used0 claim Nil
      by (auto simp: alloc_inv_def alloc_claim_def Let_def linked_def)
  next
    case (Cons c cs')
    then have f: "first = c" "first \<noteq> 0" "prev = Some (last cs)" "last cs \<in> set cs"
      using inv by (auto simp: alloc_inv_def)
    have lp: "last cs \<noteq> pos" using f(4) notin by auto
    let ?g4 = "(mark_cluster
                 (upd_cluster
                    (if zero then upd_cluster g pos (\<lambda>k. k\<lparr>c_data := replicate CLUSTER_DATA 0\<rparr>) else g)
                    pos (\<lambda>k. k\<lparr>c_used := 1\<rparr>)) pos)
               \<lparr>gfs_free_clusters := gfs_free_clusters g - 1\<rparr>"
    have g': "g' = upd_cluster ?g4 (last cs) (\<lambda>k. k\<lparr>c_next := of_nat pos\<rparr>)" "first' = first"
      using claim f by (auto simp: alloc_claim_def Let_def split: if_splits)
    have lk: "linked g' (cs @ [pos])"
      unfolding linked_def
    proof (intro allI impI)
      fix k assume k: "Suc k < length (cs @ [pos])"
      show "unat (c_next (cl g' ((cs @ [pos]) ! k))) = (cs @ [pos]) ! Suc k"
      proof (cases "Suc k < length cs")
        case True
        have d: "distinct cs" using inv by (simp add: alloc_inv_def)
        have "last cs = cs ! (length cs - 1)" using Cons by (simp add: last_conv_nth)
        then have "cs ! k \<noteq> last cs"
          using nth_eq_iff_index_eq [OF d, of k "length cs - 1"] True by simp
        moreover have "cs ! k \<noteq> pos" using notin True by (metis Suc_lessD nth_mem)
        moreover have "unat (c_next (cl g (cs ! k))) = cs ! Suc k"
          using inv True by (simp add: alloc_inv_def linked_def)
        ultimately show ?thesis using True g' by (simp add: nth_append)
      next
        case False
        then have "Suc k = length cs" using k by simp
        then have "cs ! k = last cs" by (metis diff_Suc_1 last_conv_nth length_0_conv nat.distinct(1))
        then show ?thesis using \<open>Suc k = length cs\<close> g' p16 lp by (simp add: nth_append)
      qed
    qed
    have rest: "hdr_cluster_count g' = hdr_cluster_count g0"
      "stegger g' = stegger g0" "root_entry g' = root_entry g0"
      "\<forall>i. cached g0 i \<longrightarrow> cached g' i"
      "\<forall>i. i \<notin> set (cs @ [pos]) \<longrightarrow> cl g' i = cl g0 i"
      "gfs_free_clusters g' = gfs_free_clusters g0 - of_nat (alloc + 1)"
      using inv g' f(4) by (auto simp: alloc_inv_def)
    have each: "\<forall>c \<in> set (cs @ [pos]). 1 \<le> c \<and> c < pos + 1 \<and> c < unat (hdr_cluster_count g0)
         \<and> c_used (cl g0 c) = 0 \<and> c_used (cl g' c) = 1 \<and> c_dirty (cl g' c) = 1
         \<and> c_data (cl g' c) = (if zero then replicate CLUSTER_DATA 0 else c_data (cl g0 c))"
      using inv g' pos used0 notin lp by (auto simp: alloc_inv_def)
    show ?thesis
      unfolding alloc_inv_def
      using rest each lk inv notin g'(2) f(1) Cons by (auto simp: alloc_inv_def)
  qed
qed

lemma finite_free_set [simp]: "finite (free_set g)"
  by (simp add: free_set_def)

lemma alloc_inv_subset:
  "alloc_inv g0 g zero cs pos alloc first prev \<Longrightarrow> set cs \<subseteq> free_set g0"
  by (auto simp: alloc_inv_def free_set_def)

declare alloc_loop.simps [simp del]

lemma alloc_loop_result:
  assumes "alloc_inv g0 g zero cs pos alloc first prev" and "loaded g0" and "alloc \<le> n"
  shows "(\<exists>g' cs'. alloc_loop g n zero pos alloc first prev
                     = (Inr (case cs' of [] \<Rightarrow> 0 | c # _ \<Rightarrow> c), g')
                   \<and> alloc_done g0 g' zero cs' \<and> length cs' = n)
         \<or> (\<exists>g'. alloc_loop g n zero pos alloc first prev = (Inl ENOSPC, g')
                  \<and> alloc_failed g0 g')"
  using assms
proof (induction g n zero pos alloc first prev arbitrary: cs rule: alloc_loop.induct)
  case (1 gfs count zero pos alloc first prev)
  note inv = "1.prems"(1)
  have cnt: "hdr_cluster_count gfs = hdr_cluster_count g0" using inv by (simp add: alloc_inv_def)
  show ?case
  proof (cases "alloc < count")
    case False
    then have a: "alloc = count" using "1.prems"(3) by simp
    let ?g' = "case prev of None \<Rightarrow> gfs | Some p \<Rightarrow> upd_cluster gfs p (\<lambda>k. k\<lparr>c_next := 0\<rparr>)"
    have r: "alloc_loop gfs count zero pos alloc first prev = (Inr first, ?g')"
      using False by (simp add: alloc_loop.simps [of gfs])
    have "alloc_done g0 ?g' zero cs"
    proof (cases cs)
      case Nil
      then show ?thesis using inv by (auto simp: alloc_inv_def alloc_done_def linked_def)
    next
      case (Cons c cs')
      then have p: "prev = Some (last cs)" "last cs \<in> set cs" using inv by (auto simp: alloc_inv_def)
      have lk: "linked (upd_cluster gfs (last cs) (\<lambda>k. k\<lparr>c_next := 0\<rparr>)) cs"
        unfolding linked_def
      proof (intro allI impI)
        fix k assume k: "Suc k < length cs"
        have d: "distinct cs" using inv by (simp add: alloc_inv_def)
        have "last cs = cs ! (length cs - 1)" using Cons by (simp add: last_conv_nth)
        then have "cs ! k \<noteq> last cs"
          using nth_eq_iff_index_eq [OF d, of k "length cs - 1"] k by simp
        moreover have "unat (c_next (cl gfs (cs ! k))) = cs ! Suc k"
          using inv k by (simp add: alloc_inv_def linked_def)
        ultimately show "unat (c_next (cl (upd_cluster gfs (last cs) (\<lambda>k. k\<lparr>c_next := 0\<rparr>)) (cs ! k))) = cs ! Suc k"
          by simp
      qed
      show ?thesis
        unfolding alloc_done_def
        using inv p lk alloc_inv_subset [OF inv] by (auto simp: alloc_inv_def)
    qed
    moreover have "first = (case cs of [] \<Rightarrow> 0 | c # _ \<Rightarrow> c)" "length cs = count"
      using inv a by (simp_all add: alloc_inv_def)
    ultimately show ?thesis using r by blast
  next
    case True
    show ?thesis
    proof (cases "unat (hdr_cluster_count gfs) \<le> pos")
      case full: True
      have r: "alloc_loop gfs count zero pos alloc first prev = alloc_undo gfs ENOSPC first alloc"
        using True full by (simp add: alloc_loop.simps [of gfs])
      have lk: "linked gfs cs" "distinct cs" using inv by (simp_all add: alloc_inv_def)
      have ld: "\<forall>c \<in> set cs. c < unat (hdr_cluster_count gfs) \<and> cached gfs c"
        using inv "1.prems"(2) by (auto simp: alloc_inv_def loaded_def)
      from alloc_undo_linked [OF lk ld, of ENOSPC 0] obtain g' where
        u: "alloc_undo gfs ENOSPC (case cs of [] \<Rightarrow> 0 | c # _ \<Rightarrow> c) (length cs) = (Inl ENOSPC, g')"
           "hdr_cluster_count g' = hdr_cluster_count gfs"
           "stegger g' = stegger gfs" "root_entry g' = root_entry gfs"
           "gfs_free_clusters g' = gfs_free_clusters gfs + of_nat (length cs)"
           "\<forall>i. cached gfs i \<longrightarrow> cached g' i"
           "\<forall>i. c_used (cl g' i) = (if i \<in> set cs then 0 else c_used (cl gfs i))"
           "\<forall>i. i \<notin> set cs \<longrightarrow> cl g' i = cl gfs i"
        by blast
      have "alloc_failed g0 g'"
        unfolding alloc_failed_def
        using u(2-8) inv alloc_inv_subset [OF inv] by (auto simp: alloc_inv_def)
      moreover have "alloc_loop gfs count zero pos alloc first prev = (Inl ENOSPC, g')"
        using r u(1) inv by (simp add: alloc_inv_def)
      ultimately show ?thesis by blast
    next
      case room: False
      have p1: "1 \<le> pos" using inv by (simp add: alloc_inv_def)
      have "cached gfs pos"
        using inv "1.prems"(2) room p1 cnt by (auto simp: alloc_inv_def loaded_def)
      then have get: "cluster_get gfs pos = (Inr pos, gfs)"
        using room by (simp add: cluster_get_cached)
      show ?thesis
      proof (cases "c_used (cl gfs pos) = 0")
        case free: True
        obtain first' g'' where claim: "alloc_claim gfs zero pos pos first prev = (first', g'')"
          by (cases "alloc_claim gfs zero pos pos first prev")
        have inv': "alloc_inv g0 g'' zero (cs @ [pos]) (pos + 1) (alloc + 1) first' (Some pos)"
          using alloc_inv_claim [OF inv _ free claim] room by simp
        have "alloc_loop gfs count zero pos alloc first prev
                = alloc_loop g'' count zero (pos + 1) (alloc + 1) first' (Some pos)"
          using True room get free claim by (simp add: alloc_loop.simps [of gfs])
        moreover note "1.IH"(1) [OF True room get [symmetric] refl free claim [symmetric] inv' "1.prems"(2)]
        ultimately show ?thesis using True by simp
      next
        case used: False
        have "alloc_loop gfs count zero pos alloc first prev
                = alloc_loop gfs count zero (pos + 1) alloc first prev"
          using True room get used by (simp add: alloc_loop.simps [of gfs])
        moreover note "1.IH"(2) [OF True room get [symmetric] refl used alloc_inv_skip [OF inv] "1.prems"(2,3)]
        ultimately show ?thesis by simp
      qed
    qed
  qed
qed

text \<open>
  C9. When fewer than \<open>count\<close> clusters are free, \<open>alloc_clusters\<close> returns \<open>ENOSPC\<close>
  and has rolled back what it claimed: the free-cluster counter and every used byte are
  what they were before the call (and no cluster outside the free ones has changed at
  all). The cache holds every cluster from 1 on, as it does after a mount.
\<close>

theorem alloc_clusters_nospace_rollback:
  assumes "loaded gfs" and "card (free_set gfs) < count"
  shows "\<exists>g'. alloc_clusters gfs count zero = (Inl ENOSPC, g')
              \<and> gfs_free_clusters g' = gfs_free_clusters gfs
              \<and> (\<forall>i. c_used (cl g' i) = c_used (cl gfs i))
              \<and> (\<forall>i. i \<notin> free_set gfs \<longrightarrow> cl g' i = cl gfs i)
              \<and> hdr_cluster_count g' = hdr_cluster_count gfs"
proof -
  from alloc_loop_result [OF alloc_inv_start assms(1), of count zero]
  consider g' cs' where "alloc_done gfs g' zero cs'" "length cs' = count"
    | g' where "alloc_loop gfs count zero 1 0 0 None = (Inl ENOSPC, g')" "alloc_failed gfs g'"
    by auto
  then show ?thesis
  proof cases
    case 1
    then have "distinct cs'" "set cs' \<subseteq> free_set gfs" by (simp_all add: alloc_done_def)
    then have "length cs' \<le> card (free_set gfs)"
      by (metis card_mono distinct_card finite_free_set)
    then show ?thesis using 1(2) assms(2) by simp
  next
    case 2
    then show ?thesis by (auto simp: alloc_clusters_def alloc_failed_def)
  qed
qed

lemma free_set_gfs_two: "free_set gfs_two = {1}"
  by (auto simp: free_set_def gfs_two_def cl_def zero_cluster_def)

theorem alloc_clusters_nospace_rollback_witness:
  "\<exists>g'. alloc_clusters gfs_two 2 True = (Inl ENOSPC, g')
        \<and> gfs_free_clusters g' = gfs_free_clusters gfs_two
        \<and> (\<forall>i. c_used (cl g' i) = c_used (cl gfs_two i))
        \<and> (\<forall>i. i \<notin> free_set gfs_two \<longrightarrow> cl g' i = cl gfs_two i)
        \<and> hdr_cluster_count g' = hdr_cluster_count gfs_two"
proof (rule alloc_clusters_nospace_rollback)
  show "loaded gfs_two" by (auto simp: loaded_def cached_def gfs_two_def)
  show "card (free_set gfs_two) < 2" by (simp add: free_set_gfs_two)
qed

subsection \<open>Running the code on the two-cluster filesystem\<close>

lemmas consts_defs = CLUSTER_SIZE_def CLUSTER_DATA_def CLUSTER_DIRENTS_def FILENAME_SIZE_def
  DIR_ENTRY_SIZE_def HEADER_SIZE_def

lemma component_eq_numeral:
  "component_eq cmp name (numeral k) =
     (if c_hd cmp \<noteq> 0 \<and> c_hd cmp \<noteq> 47 \<and> c_hd cmp = c_hd name
      then component_eq (tl cmp) (tl name) (pred_numeral k)
      else (c_hd cmp = 0 \<or> c_hd cmp = 47) \<and> c_hd name = 0)"
  by (simp add: numeral_eq_Suc)

lemma strncmp_eq_numeral:
  "strncmp_eq a b (numeral k) =
     (if c_hd a \<noteq> c_hd b then False
      else if c_hd a = 0 then True
      else strncmp_eq (tl a) (tl b) (pred_numeral k))"
  by (simp add: numeral_eq_Suc)

lemma dir_entry_used_at:
  "DIR_ENTRY_SIZE * i < length d \<Longrightarrow> dir_entry_used (dir_entry_at d i) = (d ! (DIR_ENTRY_SIZE * i) \<noteq> 0)"
  by (simp add: dir_entry_used_def dir_entry_at_def FILENAME_SIZE_def)

lemma iter_at_simps [simp]:
  "it_cluster (iter_at c i) = c" "it_entry (iter_at c i) = ClusterEntry c i"
  "it_entry_nr (iter_at c i) = i"
  by (simp_all add: iter_at_def)

lemma dir_iter_next_in_cluster:
  "i < CLUSTER_DIRENTS - 1 \<Longrightarrow> dir_iter_next g (iter_at c i) = (Inr (iter_at c (i + 1)), g)"
  by (simp add: dir_iter_next_def iter_at_def entry_inc_def)

lemma dir_iter_next_end:
  "i \<ge> CLUSTER_DIRENTS - 1 \<Longrightarrow> c_next (cl g c) = 0 \<Longrightarrow> dir_iter_next g (iter_at c i) = (Inl ENOENT, g)"
  by (simp add: dir_iter_next_def)

text \<open>Scanning the rest of a directory cluster that holds no further entry.\<close>

lemma dir_iter_next_used_end:
  assumes "c_next (cl g c) = 0" and "length (c_data (cl g c)) = CLUSTER_DATA"
    and "\<forall>j. i < j \<and> j < CLUSTER_DIRENTS \<longrightarrow> c_data (cl g c) ! (DIR_ENTRY_SIZE * j) = 0"
  shows "dir_iter_next_used g (iter_at c i) = Some (Inl ENOENT, g)"
  using assms(3)
proof (induction "CLUSTER_DIRENTS - i" arbitrary: i)
  case 0
  then have "i \<ge> CLUSTER_DIRENTS - 1" by simp
  then show ?case
    using assms(1) by (subst dir_iter_next_used.simps) (simp add: dir_iter_next_end)
next
  case (Suc n)
  show ?case
  proof (cases "i < CLUSTER_DIRENTS - 1")
    case False
    then show ?thesis
      using assms(1) by (subst dir_iter_next_used.simps) (simp add: dir_iter_next_end)
  next
    case True
    have z: "c_data (cl g c) ! (DIR_ENTRY_SIZE * (i + 1)) = 0"
      using Suc.prems [rule_format, of "i + 1"] True by simp
    have b: "DIR_ENTRY_SIZE * (i + 1) < length (c_data (cl g c))"
      using True assms(2) by (simp add: consts_defs)
    have u: "\<not> dir_entry_used (entry_get g (ClusterEntry c (i + 1)))"
      using z dir_entry_used_at [OF b] by (simp add: entry_get_def)
    have "dir_iter_next_used g (iter_at c (i + 1)) = Some (Inl ENOENT, g)"
      using Suc.hyps(2) Suc.prems by (intro Suc.hyps(1)) auto
    then show ?thesis
      using True u by (subst dir_iter_next_used.simps) (simp add: dir_iter_next_in_cluster)
  qed
qed

lemma gfs_two_mk2: "gfs_two = mk2 zero_cluster zero_cluster 1"
  by (simp add: gfs_two_def mk2_def)

lemma mk2_simps [simp]:
  "cl (mk2 a b n) 0 = a" "cl (mk2 a b n) (Suc 0) = b"
  "upd_cluster (mk2 a b n) 0 f = mk2 (f a) b n"
  "upd_cluster (mk2 a b n) (Suc 0) f = mk2 a (f b) n"
  "mark_cluster (mk2 a b n) 0 = mk2 (a\<lparr>c_dirty := 1\<rparr>) b n"
  "mark_cluster (mk2 a b n) (Suc 0) = mk2 a (b\<lparr>c_dirty := 1\<rparr>) n"
  "(mk2 a b n)\<lparr>gfs_free_clusters := m\<rparr> = mk2 a b m"
  "gfs_free_clusters (mk2 a b n) = n" "hdr_cluster_count (mk2 a b n) = 2"
  "root_entry (mk2 a b n) = mounted_root_entry"
  "cluster_get (mk2 a b n) 0 = (Inr 0, mk2 a b n)"
  "cluster_get (mk2 a b n) (Suc 0) = (Inr (Suc 0), mk2 a b n)"
  by (simp_all add: mk2_def cl_def upd_cluster_def mark_cluster_def cluster_get_def fun_upd_twist)

lemma mk2_entry [simp]:
  "entry_get (mk2 a b n) RootEntry = mounted_root_entry"
  "entry_get (mk2 a b n) (ClusterEntry 0 i) = dir_entry_at (c_data a) i"
  "entry_write (mk2 a b n) (ClusterEntry 0 i) off bs
     = mk2 (a\<lparr>c_data := memcpy_at (c_data a) (DIR_ENTRY_SIZE * i + off) bs\<rparr>) b n"
  by (simp_all add: entry_get_def entry_write_def)

lemma c_hd_simps [simp]:
  "c_hd [] = 0" "c_hd (x # xs) = x" "c_hd (replicate n x) = (if n = 0 then 0 else x)"
  by (simp_all add: c_hd_def split: nat.splits) (cases n; simp)+

lemmas exec_defs = Let_def entry_inc_def dir_iter_lookup_def dir_iter_init_def dir_iter_next_def
  cluster_get_next_def dir_entry_at_def dir_entry_used_def
  dir_entry_is_directory_def memcpy_at_def
  strlen_def strcpy_bytes_def str_def component_eq_numeral strncmp_eq_numeral
  dir_iter_lookup_loop.simps dir_contains_def dir_contains_loop.simps find_empty_entry_def find_empty_loop.simps
  create_entry_def create_entry_finish_def create_entry_store_def ghostfs_create_def
  dir_entry_set_size_def entry_set_cluster_def bytes_of_u32_def bytes_of_u16_def u32_of_bytes_def u16_of_bytes_def
  last_component.simps

lemma diff_less_pos: "0 < n \<Longrightarrow> (i - k < (n::nat)) = (i < n + k)"
  by arith

lemmas exec_defs2 = ghostfs_open_def ghostfs_write_def ghostfs_read_def do_truncate_def
  do_truncate_grow_def do_truncate_shrink_def do_truncate_finish_def size_to_clusters_def
  to_off_t_def alloc_clusters_def alloc_loop.simps alloc_claim_def
  write_loop.simps read_loop.simps ghostfs_truncate_def ghostfs_unlink_def remove_entry_def
  remove_entry_unlink_def free_clusters.simps FILESIZE_MAX_def ghostfs_rename_def ghostfs_mkdir_def
  ghostfs_rmdir_def

lemmas exec_all = gfs_two_mk2 zero_cluster_def exec_defs exec_defs2 consts_defs
  mounted_root_entry_def dir_iter_next_used.simps nth_append diff_less_pos

text \<open>
  C3 (the code at the failing input). On the file \<open>/a\<close> of five bytes, whose chain is
  cluster 1, \<open>do_truncate\<close> to size 0 succeeds and sets the size to 0, but the entry's
  first cluster is still 1 afterwards: the code frees the chain and does not clear
  \<open>entry.cluster\<close>.
\<close>

theorem truncate_to_zero_keeps_cluster:
  "map_option (\<lambda>(r, g). (r, e_size (entry_get g (ClusterEntry 0 0)),
                              e_cluster (entry_get g (ClusterEntry 0 0))))
     (Option.bind after_create_write (\<lambda>(it, g). do_truncate g it 0))
   = Some (Inr (), 0, 1)"
  unfolding after_create_write_def
  by (simp add: exec_all)

text \<open>
  C2 (the code at the failing input). After create, write, truncate to 0 and unlink of
  \<open>/a\<close> on a filesystem of two clusters, every call having succeeded, the free-cluster
  counter is 2 while cluster 1 is the only cluster from 1 on with \<open>used = 0\<close>: the stale
  \<open>entry.cluster\<close> left by the truncation makes \<open>remove_entry\<close> free the chain a second
  time.
\<close>

theorem truncate_unlink_counts_twice:
  "map_option (\<lambda>(r, g). (r, hdr_cluster_count g, gfs_free_clusters g, free_set g))
     run_truncate_unlink
   = Some (Inr (), 2, 2, {1})"
proof -
  have "map_option (\<lambda>(r, g). (r, hdr_cluster_count g, gfs_free_clusters g, c_used (cl g 1)))
          run_truncate_unlink = Some (Inr (), 2, 2, 0)"
    unfolding run_truncate_unlink_def after_create_write_def
    by (simp add: exec_all)
  then obtain g where r: "run_truncate_unlink = Some (Inr (), g)"
    and g: "hdr_cluster_count g = 2" "gfs_free_clusters g = 2" "c_used (cl g 1) = 0"
    by auto
  have f: "free_set g = {1}"
  proof
    show "free_set g \<subseteq> {1}" using g(1) by (auto simp: free_set_def)
    show "{1} \<subseteq> free_set g" using g(1,3) by (simp add: free_set_def)
  qed
  show ?thesis by (simp add: r g f)
qed

subsection \<open>Bytes of a directory entry\<close>

lemma length_memcpy_at [simp]:
  "off + length bs \<le> length d \<Longrightarrow> length (memcpy_at d off bs) = length d"
  by (simp add: memcpy_at_def)

lemma nth_memcpy_at:
  "off + length bs \<le> length d \<Longrightarrow> k < length d \<Longrightarrow>
   memcpy_at d off bs ! k = (if off \<le> k \<and> k < off + length bs then bs ! (k - off) else d ! k)"
  by (auto simp: memcpy_at_def nth_append)

lemma take_drop_4:
  "k + 4 \<le> length d \<Longrightarrow> take 4 (drop k d) = [d ! k, d ! (k + 1), d ! (k + 2), d ! (k + 3)]"
  by (rule nth_equalityI) (auto simp: less_Suc_eq eval_nat_numeral)

lemma take_drop_2: "k + 2 \<le> length d \<Longrightarrow> take 2 (drop k d) = [d ! k, d ! (k + 1)]"
  by (rule nth_equalityI) (auto simp: less_Suc_eq eval_nat_numeral)

lemma e_size_dir_entry_at:
  "DIR_ENTRY_SIZE * i + DIR_ENTRY_SIZE \<le> length d \<Longrightarrow>
   e_size (dir_entry_at d i) = slot_size d (DIR_ENTRY_SIZE * i + FILENAME_SIZE)"
  by (simp add: dir_entry_at_def slot_size_def take_drop_4 consts_defs)

lemma e_cluster_dir_entry_at:
  "DIR_ENTRY_SIZE * i + DIR_ENTRY_SIZE \<le> length d \<Longrightarrow>
   e_cluster (dir_entry_at d i)
     = u16_of_bytes [d ! (DIR_ENTRY_SIZE * i + FILENAME_SIZE + 4), d ! (DIR_ENTRY_SIZE * i + FILENAME_SIZE + 5)]"
  by (simp add: dir_entry_at_def take_drop_2 consts_defs add.assoc add.commute)

lemma slot_size_memcpy_size:
  "k + 4 \<le> length d \<Longrightarrow> slot_size (memcpy_at d k (bytes_of_u32 w)) k = w"
proof -
  assume a: "k + 4 \<le> length d"
  have l: "length (bytes_of_u32 w) = 4" by (simp add: bytes_of_u32_def)
  have "[memcpy_at d k (bytes_of_u32 w) ! k, memcpy_at d k (bytes_of_u32 w) ! (k + 1),
         memcpy_at d k (bytes_of_u32 w) ! (k + 2), memcpy_at d k (bytes_of_u32 w) ! (k + 3)]
        = bytes_of_u32 w"
    using a l by (simp add: nth_memcpy_at) (simp add: bytes_of_u32_def)
  then show ?thesis by (simp add: slot_size_def u32_of_bytes_of_u32)
qed

lemma slot_size_memcpy_other:
  "off + length bs \<le> length d \<Longrightarrow> k + 4 \<le> length d \<Longrightarrow>
   off + length bs \<le> k \<or> k + 4 \<le> off \<Longrightarrow>
   slot_size (memcpy_at d off bs) k = slot_size d k"
  by (auto simp: slot_size_def nth_memcpy_at)

lemma e_size_entry_get:
  "slot_in_cluster g (ClusterEntry c i) \<Longrightarrow>
   e_size (entry_get g (ClusterEntry c i)) = slot_size (c_data (cl g c)) (DIR_ENTRY_SIZE * i + FILENAME_SIZE)"
  by (simp add: slot_in_cluster_def entry_get_def e_size_dir_entry_at)

lemma slot_in_cluster_entry_write:
  assumes "slot_in_cluster g q" and "off + length bs \<le> DIR_ENTRY_SIZE"
  shows "slot_in_cluster (entry_write g q off bs) p = slot_in_cluster g p"
proof (cases q)
  case RootEntry
  then show ?thesis using assms by (simp add: slot_in_cluster_def)
next
  case (ClusterEntry c i)
  then have "DIR_ENTRY_SIZE * i + off + length bs \<le> length (c_data (cl g c))"
    using assms by (simp add: slot_in_cluster_def)
  then show ?thesis
    using ClusterEntry by (cases p) (simp_all add: slot_in_cluster_def entry_write_def)
qed

lemma slot_in_cluster_mark [simp]: "slot_in_cluster (mark_cluster g c) p = slot_in_cluster g p"
  by (cases p) (simp_all add: slot_in_cluster_def)

lemma entry_get_mark [simp]: "entry_get (mark_cluster g c) p = entry_get g p"
  by (cases p) (simp_all add: entry_get_def)

lemma e_size_entry_write_size:
  assumes "slot_in_cluster g p"
  shows "e_size (entry_get (entry_write g p FILENAME_SIZE (bytes_of_u32 w)) p) = w"
proof (cases p)
  case RootEntry
  then show ?thesis using assms by (simp add: slot_in_cluster_def)
next
  case (ClusterEntry c i)
  have q: "slot_in_cluster g p"  "FILENAME_SIZE + length (bytes_of_u32 w) \<le> DIR_ENTRY_SIZE"
    using assms by (simp_all add: bytes_of_u32_def consts_defs)
  have s: "slot_in_cluster (entry_write g p FILENAME_SIZE (bytes_of_u32 w)) (ClusterEntry c i)"
    using slot_in_cluster_entry_write [OF q] assms ClusterEntry by simp
  have b: "DIR_ENTRY_SIZE * i + FILENAME_SIZE + 4 \<le> length (c_data (cl g c))"
    using assms ClusterEntry by (simp add: slot_in_cluster_def consts_defs)
  show ?thesis
    using e_size_entry_get [OF s] ClusterEntry slot_size_memcpy_size [OF b, of w]
    by (simp add: entry_write_def)
qed

lemma e_size_entry_write_other:
  assumes "slot_in_cluster g p" and "slot_in_cluster g q" and "off + length bs \<le> DIR_ENTRY_SIZE"
    and "p \<noteq> q \<or> off + length bs \<le> FILENAME_SIZE \<or> FILENAME_SIZE + 4 \<le> off"
  shows "e_size (entry_get (entry_write g q off bs) p) = e_size (entry_get g p)"
proof -
  obtain c i where p: "p = ClusterEntry c i" using assms(1) by (cases p) (simp_all add: slot_in_cluster_def)
  obtain c' i' where q: "q = ClusterEntry c' i'" using assms(2) by (cases q) (simp_all add: slot_in_cluster_def)
  have s: "slot_in_cluster (entry_write g q off bs) (ClusterEntry c i)"
    using slot_in_cluster_entry_write [OF assms(2,3)] assms(1) p by simp
  show ?thesis
  proof (cases "c = c'")
    case False
    then show ?thesis using p q by (simp add: entry_get_def entry_write_def)
  next
    case True
    let ?d = "c_data (cl g c)"
    have b: "DIR_ENTRY_SIZE * i' + off + length bs \<le> length ?d"
      "DIR_ENTRY_SIZE * i + FILENAME_SIZE + 4 \<le> length ?d"
      using assms(1,2,3) p q True by (simp_all add: slot_in_cluster_def consts_defs)
    have sep: "DIR_ENTRY_SIZE * i' + off + length bs \<le> DIR_ENTRY_SIZE * i + FILENAME_SIZE
               \<or> DIR_ENTRY_SIZE * i + FILENAME_SIZE + 4 \<le> DIR_ENTRY_SIZE * i' + off"
    proof (cases "i = i'")
      case True
      then show ?thesis using assms(4) p q \<open>c = c'\<close> by auto
    next
      case False
      then consider "i' < i" | "i < i'" by linarith
      then show ?thesis
      proof cases
        case 1
        then have "DIR_ENTRY_SIZE * i' + DIR_ENTRY_SIZE \<le> DIR_ENTRY_SIZE * i"
          by (simp add: consts_defs)
        then show ?thesis using assms(3) by linarith
      next
        case 2
        then have "DIR_ENTRY_SIZE * i + DIR_ENTRY_SIZE \<le> DIR_ENTRY_SIZE * i'"
          by (simp add: consts_defs)
        then show ?thesis by (simp add: consts_defs)
      qed
    qed
    have "slot_size (memcpy_at ?d (DIR_ENTRY_SIZE * i' + off) bs) (DIR_ENTRY_SIZE * i + FILENAME_SIZE)
            = slot_size ?d (DIR_ENTRY_SIZE * i + FILENAME_SIZE)"
      using b sep by (intro slot_size_memcpy_other) (simp_all add: add.assoc)
    then show ?thesis
      using e_size_entry_get [OF s] e_size_entry_get [of g c i] assms(1) p q True
      by (simp add: entry_write_def)
  qed
qed

subsection \<open>Rename\<close>

text \<open>
  C8 (as the code has it). \<open>ghostfs_rename\<close> creates the entry for the new path as a file
  and then overwrites its size word with the whole size word of the old entry, directory
  flag included. When a rename succeeds, the entry it created has, in the final state,
  the size word (hence the directory flag) that the old entry has once the new entry has
  been created; renaming a directory yields a directory entry.
\<close>

theorem rename_copies_size_word:
  assumes "ghostfs_rename gfs path newpath = Some (Inr (), g')"
  shows "\<exists>it g0 r g1 entry g2.
           dir_iter_lookup gfs path False = Some (Inr it, g0)
           \<and> remove_entry g0 newpath False = Some (r, g1)
           \<and> create_entry g1 newpath False = Some (Inr entry, g2)
           \<and> (slot_in_cluster g2 (it_entry it) \<and> slot_in_cluster g2 entry \<longrightarrow>
                e_size (entry_get g' entry) = e_size (entry_get g2 (it_entry it))
                \<and> dir_entry_is_directory (entry_get g' entry)
                    = dir_entry_is_directory (entry_get g2 (it_entry it)))"
proof -
  let ?fin = "\<lambda>it entry g2.
        entry_set_cluster
          (entry_write (mark_cluster (entry_write g2 (it_entry it) 0 [0]) (it_cluster it))
             entry FILENAME_SIZE
             (bytes_of_u32 (e_size (entry_get
                (mark_cluster (entry_write g2 (it_entry it) 0 [0]) (it_cluster it))
                (it_entry it)))))
          entry
          (e_cluster (entry_get
             (entry_write (mark_cluster (entry_write g2 (it_entry it) 0 [0]) (it_cluster it))
                entry FILENAME_SIZE
                (bytes_of_u32 (e_size (entry_get
                   (mark_cluster (entry_write g2 (it_entry it) 0 [0]) (it_cluster it))
                   (it_entry it)))))
             (it_entry it)))"
  from assms obtain x where l0: "dir_iter_lookup gfs path False = Some x"
    and k0: "(case x of
                (Inl e, g) \<Rightarrow> Some (Inl e, g)
              | (Inr it, g) \<Rightarrow>
                  if it_entry it = RootEntry then Some (Inl EINVAL, g)
                  else Option.bind (remove_entry g newpath False)
                         (\<lambda>(_, g1). Option.bind (create_entry g1 newpath False)
                            (\<lambda>r'. case r' of
                               (Inl e, g2) \<Rightarrow> Some (Inl e, g2)
                             | (Inr entry, g2) \<Rightarrow> Some (Inr (), ?fin it entry g2))))
             = Some (Inr (), g')"
    unfolding ghostfs_rename_def Let_def by (auto simp: bind_eq_Some_conv)
  obtain a g0 where x: "x = (a, g0)" by (cases x)
  obtain it where a: "a = Inr it" using k0 x by (cases a) simp_all
  have nr: "it_entry it \<noteq> RootEntry" using k0 x a by (auto split: if_splits)
  have lk: "dir_iter_lookup gfs path False = Some (Inr it, g0)" using l0 x a by simp
  from k0 x a nr obtain y where rm0: "remove_entry g0 newpath False = Some y"
    and k1: "(case y of (_, g1) \<Rightarrow> Option.bind (create_entry g1 newpath False)
                (\<lambda>r'. case r' of
                   (Inl e, g2) \<Rightarrow> Some (Inl e, g2)
                 | (Inr entry, g2) \<Rightarrow> Some (Inr (), ?fin it entry g2)))
             = Some (Inr (), g')"
    by (auto simp: bind_eq_Some_conv)
  obtain r g1 where y: "y = (r, g1)" by (cases y)
  have rm: "remove_entry g0 newpath False = Some (r, g1)" using rm0 y by simp
  from k1 y obtain z where cr0: "create_entry g1 newpath False = Some z"
    and k2: "(case z of
                (Inl e, g2) \<Rightarrow> Some (Inl e, g2)
              | (Inr entry, g2) \<Rightarrow> Some (Inr (), ?fin it entry g2)) = Some (Inr (), g')"
    by (auto simp: bind_eq_Some_conv)
  obtain b g2 where z: "z = (b, g2)" by (cases z)
  obtain entry where b: "b = Inr entry" using k2 z by (cases b) simp_all
  have cr: "create_entry g1 newpath False = Some (Inr entry, g2)" using cr0 z b by simp
  have g': "g' = ?fin it entry g2" using k2 z b by simp
  have "e_size (entry_get g' entry) = e_size (entry_get g2 (it_entry it))"
    if so: "slot_in_cluster g2 (it_entry it)" and sn: "slot_in_cluster g2 entry"
  proof -
    let ?old = "it_entry it"
    let ?g3 = "entry_write g2 ?old 0 [0]"
    let ?g4 = "mark_cluster ?g3 (it_cluster it)"
    let ?w = "e_size (entry_get ?g4 ?old)"
    let ?g5 = "entry_write ?g4 entry FILENAME_SIZE (bytes_of_u32 ?w)"
    have one: "0 + length [0::byte] \<le> DIR_ENTRY_SIZE" by (simp add: consts_defs)
    have w: "?w = e_size (entry_get g2 ?old)"
      using e_size_entry_write_other [OF so so one] by (simp add: consts_defs)
    have s4: "slot_in_cluster ?g4 entry" "slot_in_cluster ?g4 ?old"
      using slot_in_cluster_entry_write [OF so one] so sn by simp_all
    have four: "FILENAME_SIZE + length (bytes_of_u32 ?w) \<le> DIR_ENTRY_SIZE"
      by (simp add: bytes_of_u32_def consts_defs)
    have s5: "slot_in_cluster ?g5 entry"
      using slot_in_cluster_entry_write [OF s4(1) four] s4(1) by simp
    have "e_size (entry_get ?g5 entry) = ?w" using e_size_entry_write_size [OF s4(1)] .
    moreover have "e_size (entry_get (entry_set_cluster ?g5 entry x) entry) = e_size (entry_get ?g5 entry)" for x
      unfolding entry_set_cluster_def
      by (rule e_size_entry_write_other [OF s5 s5]) (simp_all add: bytes_of_u16_def consts_defs)
    ultimately show ?thesis using w g' by simp
  qed
  then show ?thesis using lk rm cr by (auto simp: dir_entry_is_directory_def)
qed

theorem rename_copies_size_word_witness:
  "\<exists>g1 g' entry g2.
      ghostfs_mkdir gfs_two (str ''/d'') = Some (Inr (), g1)
      \<and> ghostfs_rename g1 (str ''/d'') (str ''/e'') = Some (Inr (), g')
      \<and> create_entry g1 (str ''/e'') False = Some (Inr entry, g2)
      \<and> dir_entry_is_directory (entry_get g2 (ClusterEntry 0 0))
      \<and> dir_entry_is_directory (entry_get g' entry)"
proof -
  have "\<exists>g1. ghostfs_mkdir gfs_two (str ''/d'') = Some (Inr (), g1)
          \<and> (\<exists>g'. ghostfs_rename g1 (str ''/d'') (str ''/e'') = Some (Inr (), g'))
          \<and> dir_iter_lookup g1 (str ''/d'') False = Some (Inr (iter_at 0 0), g1)
          \<and> remove_entry g1 (str ''/e'') False = Some (Inl ENOENT, g1)
          \<and> (\<exists>g2. create_entry g1 (str ''/e'') False = Some (Inr (ClusterEntry 0 1), g2)
                \<and> slot_in_cluster g2 (ClusterEntry 0 0) \<and> slot_in_cluster g2 (ClusterEntry 0 1)
                \<and> dir_entry_is_directory (entry_get g2 (ClusterEntry 0 0)))"
    by (simp add: exec_all iter_at_def slot_in_cluster_def)
  then obtain g1 g' g2 where
    mk: "ghostfs_mkdir gfs_two (str ''/d'') = Some (Inr (), g1)"
    and rn: "ghostfs_rename g1 (str ''/d'') (str ''/e'') = Some (Inr (), g')"
    and lk: "dir_iter_lookup g1 (str ''/d'') False = Some (Inr (iter_at 0 0), g1)"
    and rm: "remove_entry g1 (str ''/e'') False = Some (Inl ENOENT, g1)"
    and cr: "create_entry g1 (str ''/e'') False = Some (Inr (ClusterEntry 0 1), g2)"
    and s: "slot_in_cluster g2 (ClusterEntry 0 0)" "slot_in_cluster g2 (ClusterEntry 0 1)"
    and d: "dir_entry_is_directory (entry_get g2 (ClusterEntry 0 0))"
    by blast
  from rename_copies_size_word [OF rn] lk rm cr s d
  have "dir_entry_is_directory (entry_get g' (ClusterEntry 0 1))" by auto
  then show ?thesis using mk rn cr d by blast
qed

text \<open>
  C8 (as claimed) fails: the directory \<open>/d\<close> renamed to \<open>/e\<close> is found at \<open>/e\<close> with its
  directory flag set.
\<close>

theorem rename_keeps_directory_flag:
  "run_rename_dir = Some (Inr (), True)"
  unfolding run_rename_dir_def by (simp add: exec_all)

subsection \<open>Format and mount on the smallest carrier\<close>

lemma length_bytes_of_u16 [simp]: "length (bytes_of_u16 w) = 2"
  by (simp add: bytes_of_u16_def)

lemma length_bytes_of_u32 [simp]: "length (bytes_of_u32 w) = 4"
  by (simp add: bytes_of_u32_def)

lemma cluster_of_bytes_of_cluster:
  "length (c_data c) = CLUSTER_DATA \<Longrightarrow> cluster_of_bytes (bytes_of_cluster c) = c"
  by (cases c)
     (simp add: cluster_of_bytes_def bytes_of_cluster_def u16_of_bytes_of_u16 nth_append)

lemma length_bytes_of_cluster:
  "length (c_data c) = CLUSTER_DATA \<Longrightarrow> length (bytes_of_cluster c) = CLUSTER_SIZE"
  by (simp add: bytes_of_cluster_def consts_defs)

declare format_dirents.simps [simp del]

lemma mod_slot_shift:
  "i + DIR_ENTRY_SIZE \<le> k \<Longrightarrow>
   (k - (i + DIR_ENTRY_SIZE)) mod DIR_ENTRY_SIZE = (k - i) mod DIR_ENTRY_SIZE"
proof -
  assume "i + DIR_ENTRY_SIZE \<le> k"
  then have "k - i = (k - (i + DIR_ENTRY_SIZE)) + DIR_ENTRY_SIZE" by simp
  then show ?thesis by (metis mod_add_self2)
qed

lemma mod_slot_small:
  "k \<noteq> i \<Longrightarrow> i \<le> k \<Longrightarrow> \<not> i + DIR_ENTRY_SIZE \<le> k \<Longrightarrow> (k - i) mod DIR_ENTRY_SIZE \<noteq> 0"
proof -
  assume "k \<noteq> i" "i \<le> k" "\<not> i + DIR_ENTRY_SIZE \<le> k"
  then have "k - i < DIR_ENTRY_SIZE" "0 < k - i" by simp_all
  then show ?thesis by simp
qed

lemma length_format_dirents [simp]: "length (format_dirents d i) = length d"
  by (induction d i rule: format_dirents.induct) (simp add: format_dirents.simps)

lemma nth_format_dirents:
  "k < length d \<Longrightarrow>
   format_dirents d i ! k
     = (if i \<le> k \<and> k < CLUSTER_DATA \<and> (k - i) mod DIR_ENTRY_SIZE = 0 then 0 else d ! k)"
proof (induction d i rule: format_dirents.induct)
  case (1 d i)
  show ?case
  proof (cases "i < CLUSTER_DATA")
    case False
    then show ?thesis by (auto simp: format_dirents.simps [of d i])
  next
    case True
    have "format_dirents d i ! k = format_dirents (d[i := 0]) (i + DIR_ENTRY_SIZE) ! k"
      using True by (simp add: format_dirents.simps [of d i])
    also have "\<dots> = (if i + DIR_ENTRY_SIZE \<le> k \<and> k < CLUSTER_DATA
                          \<and> (k - (i + DIR_ENTRY_SIZE)) mod DIR_ENTRY_SIZE = 0
                       then 0 else d[i := 0] ! k)"
      using "1.IH" [OF True] "1.prems" by simp
    also have "\<dots> = (if i \<le> k \<and> k < CLUSTER_DATA \<and> (k - i) mod DIR_ENTRY_SIZE = 0 then 0 else d ! k)"
    proof (cases "k = i")
      case True
      then show ?thesis using "1.prems" \<open>i < CLUSTER_DATA\<close> by (simp add: consts_defs)
    next
      case False
      note m = mod_slot_shift [of i k]
      note n = mod_slot_small [OF False]
      show ?thesis
      proof (cases "i + DIR_ENTRY_SIZE \<le> k")
        case True
        then show ?thesis using False m by simp
      next
        case False
        then show ?thesis using \<open>k \<noteq> i\<close> n by (auto simp flip: mod_eq_0_iff_dvd)
      qed
    qed
    finally show ?thesis .
  qed
qed

lemma format_dirents_slot:
  "length d = CLUSTER_DATA \<Longrightarrow> j < CLUSTER_DIRENTS \<Longrightarrow> format_dirents d 0 ! (DIR_ENTRY_SIZE * j) = 0"
  by (simp add: nth_format_dirents consts_defs)

lemma formatted_root_fields:
  assumes "HEADER_SIZE + CLUSTER_SIZE \<le> length st"
  shows "c_next (formatted_root st) = 0" "c_dirty (formatted_root st) = 0"
    "length (c_data (formatted_root st)) = CLUSTER_DATA"
    "empty_dir (formatted_root st)"
proof -
  show "c_next (formatted_root st) = 0" "c_dirty (formatted_root st) = 0"
    by (simp_all add: formatted_root_def Let_def unmark_cluster_def)
  show l: "length (c_data (formatted_root st)) = CLUSTER_DATA"
    using assms
    by (simp add: formatted_root_def Let_def unmark_cluster_def cluster_of_bytes_def consts_defs)
  have "c_data (formatted_root st) ! (DIR_ENTRY_SIZE * j) = 0" if "j < CLUSTER_DIRENTS" for j
  proof -
    have "length (c_data (unmark_cluster (cluster_of_bytes (take CLUSTER_SIZE (drop HEADER_SIZE st)))))
            = CLUSTER_DATA"
      using assms by (simp add: unmark_cluster_def cluster_of_bytes_def consts_defs)
    from format_dirents_slot [OF this that] show ?thesis
      by (simp add: formatted_root_def Let_def)
  qed
  then show "empty_dir (formatted_root st)"
    using l by (simp add: empty_dir_def formatted_root_def Let_def unmark_cluster_def)
qed

lemma format_one_cluster:
  assumes len: "length st = HEADER_SIZE + CLUSTER_SIZE" and md: "\<forall>x. length (md5 x) = 16"
  shows "ghostfs_format md5 st
           = (Inr (), md5 (bytes_of_u16 1 @ bytes_of_cluster (formatted_root st))
                        @ bytes_of_u16 1 @ bytes_of_cluster (formatted_root st))"
proof -
  let ?c = "formatted_root st"
  let ?g = "\<lparr> hdr_cluster_count = 1, stegger = st, clusters = (\<lambda>_. None),
              root_entry = \<lparr> e_filename = [], e_size = 0, e_cluster = 0 \<rparr>,
              gfs_free_clusters = 0 \<rparr>"
  let ?d = "md5 (bytes_of_u16 1 @ bytes_of_cluster ?c)"
  have l: "HEADER_SIZE + CLUSTER_SIZE \<le> length st" using len by simp
  have lb: "length (bytes_of_cluster ?c) = CLUSTER_SIZE"
    using formatted_root_fields(3) [OF l] by (rule length_bytes_of_cluster)
  have ld: "length ?d = 16" using md by simp
  have cnt: "(length st - HEADER_SIZE) div CLUSTER_SIZE = 1"
    using len by (simp add: consts_defs)
  have rd: "read_cluster ?g 0
              = Inr (unmark_cluster (cluster_of_bytes (take CLUSTER_SIZE (drop HEADER_SIZE st))))"
    using len by (simp add: read_cluster_def stegger_read_def)
  have w1: "stegger_write st ?d 0 = Inr (?d @ drop 16 st)"
    using len ld by (simp add: stegger_write_def HEADER_SIZE_def)
  have w2: "stegger_write (?d @ drop 16 st) (bytes_of_u16 1) 16 = Inr (?d @ bytes_of_u16 1 @ drop 18 st)"
    using len ld by (simp add: stegger_write_def HEADER_SIZE_def)
  have w3: "stegger_write (?d @ bytes_of_u16 1 @ drop 18 st) (bytes_of_cluster ?c) HEADER_SIZE
              = Inr (?d @ bytes_of_u16 1 @ bytes_of_cluster ?c)"
    using len ld lb by (simp add: stegger_write_def HEADER_SIZE_def)
  have wh: "write_header md5 ?g ?c
              = (Inr (unmark_cluster ?c), ?g\<lparr>stegger := ?d @ bytes_of_u16 1 @ bytes_of_cluster ?c\<rparr>)"
    using w1 w2 w3 by (simp add: write_header_def write_cluster_def)
  have c: "(let c1 = unmark_cluster (cluster_of_bytes (take CLUSTER_SIZE (drop HEADER_SIZE st)))
                       \<lparr>c_next := 0\<rparr>
            in c1\<lparr>c_data := format_dirents (c_data c1) 0\<rparr>) = ?c"
    by (simp add: formatted_root_def Let_def)
  show ?thesis
    using l rd wh c by (simp add: ghostfs_format_def cnt Let_def)
qed

lemma bytes_of_u16_one: "bytes_of_u16 1 = [1, 0]"
  by (simp add: bytes_of_u16_def)

lemma mount_one_cluster:
  assumes len: "length (c_data c) = CLUSTER_DATA" and md: "\<forall>x. length (md5 x) = 16"
  shows "ghostfs_mount md5 (md5 (bytes_of_u16 1 @ bytes_of_cluster c) @ bytes_of_u16 1 @ bytes_of_cluster c)
           = Inr (fresh_one (md5 (bytes_of_u16 1 @ bytes_of_cluster c) @ bytes_of_u16 1
                              @ bytes_of_cluster c))"
proof -
  let ?d = "md5 (bytes_of_u16 1 @ bytes_of_cluster c)"
  let ?st = "?d @ bytes_of_u16 1 @ bytes_of_cluster c"
  let ?g0 = "\<lparr> hdr_cluster_count = 0, stegger = ?st, clusters = (\<lambda>_. None),
               root_entry = \<lparr> e_filename = replicate FILENAME_SIZE 0, e_size = 0x80000000,
                              e_cluster = 0 \<rparr>,
               gfs_free_clusters = 0 \<rparr>"
  have ld: "length ?d = 16" using md by simp
  have lb: "length (bytes_of_cluster c) = CLUSTER_SIZE"
    using len by (rule length_bytes_of_cluster)
  have l: "HEADER_SIZE + CLUSTER_SIZE \<le> length (stegger ?g0)"
    using ld lb by (simp add: HEADER_SIZE_def)
  have t: "take 2 (drop 16 ?st) = bytes_of_u16 1" using ld by simp
  have dg: "digest_ok md5 ?st"
    using ld lb by (simp add: digest_ok_def HEADER_SIZE_def)
  have "ghostfs_check md5 ?g0 = (Inr (), ?g0\<lparr>hdr_cluster_count := 1\<rparr>)"
    using ghostfs_check_result [OF l, of md5] dg t by (simp add: u16_of_bytes_of_u16)
  then show ?thesis
    by (simp add: ghostfs_mount_def fresh_one_def mounted_root_entry_def)
qed

lemma strchr_None: "c \<notin> set s \<Longrightarrow> strchr s c = None"
  by (induction s) auto

lemma plain_name_facts:
  assumes "plain_name name"
  shows "strchr name 47 = None" "last_component (47 # name) = name" "strlen name = length name"
    "c_hd name \<noteq> 0" "length name \<le> FILENAME_SIZE - 1"
proof -
  show s: "strchr name 47 = None" using assms by (simp add: plain_name_def strchr_None)
  have "last_component (47 # name) = last_component name"
    by (subst last_component.simps) simp
  then show "last_component (47 # name) = name"
    using s by (simp add: last_component.simps [of name])
  have tw: "takeWhile (\<lambda>c. c \<noteq> 0) name = name"
    using assms by (auto simp: plain_name_def takeWhile_eq_all_conv)
  show "strlen name = length name" by (simp only: strlen_def tw)
  show "c_hd name \<noteq> 0" using assms by (cases name) (auto simp: plain_name_def)
  show "length name \<le> FILENAME_SIZE - 1" using assms by (simp add: plain_name_def)
qed

text \<open>\<open>create_entry\<close> in an empty root directory of a filesystem of one cluster; \<open>g1\<close> is the
  handle once the root directory cluster is in the cache.\<close>

lemma create_in_empty_root:
  assumes get0: "cluster_get g 0 = (Inr 0, g1)"
    and cnt: "hdr_cluster_count g1 = 1" and root: "root_entry g1 = mounted_root_entry"
    and c0: "clusters g1 0 = Some c" and e: "empty_dir c" and n: "plain_name name"
  shows "create_entry g (47 # name) True = Some (Inl ENOSPC, g1)"
    and "create_entry g (47 # name) False = Some (create_entry_store g1 (iter_at 0 0) name False 0)"
proof -
  note nf = plain_name_facts [OF n]
  have cl0: "cl g1 0 = c" using c0 by (simp add: cl_def)
  have get: "cluster_get g1 0 = (Inr 0, g1)" using cnt c0 by (simp add: cluster_get_def)
  have init: "dir_iter_init g1 0 = (Inr (iter_at 0 0), g1)"
    using get by (simp add: dir_iter_init_def iter_at_def)
  have init0: "dir_iter_init g 0 = (Inr (iter_at 0 0), g1)"
    using get0 by (simp add: dir_iter_init_def iter_at_def)
  have lk: "dir_iter_lookup g (47 # name) True = Some (Inr ((iter_at 0 0)\<lparr>it_entry := RootEntry\<rparr>), g1)"
    using init0 nf(1) by (simp add: dir_iter_lookup_def)
  have isdir: "dir_entry_is_directory (entry_get g1 RootEntry)"
    using root by (simp add: entry_get_def mounted_root_entry_def dir_entry_is_directory_def)
  have rc: "unat (e_cluster (entry_get g1 RootEntry)) = 0"
    using root by (simp add: entry_get_def mounted_root_entry_def)
  have ld: "length (c_data c) = CLUSTER_DATA" and nx: "c_next c = 0"
    and sl: "\<forall>j < CLUSTER_DIRENTS. c_data c ! (DIR_ENTRY_SIZE * j) = 0"
    using e by (simp_all add: empty_dir_def)
  have d0: "c_data c ! 0 = 0"
    using sl [rule_format, of 0] by (simp add: CLUSTER_DIRENTS_def)
  have fn: "c_hd (e_filename (entry_get g1 (ClusterEntry 0 0))) = 0"
    using d0 ld cl0
    by (cases "c_data c") (simp_all add: entry_get_def dir_entry_at_def consts_defs)
  have ncmp: "\<not> strncmp_eq (e_filename (entry_get g1 (ClusterEntry 0 0))) name FILENAME_SIZE"
    using fn nf(4) by (simp add: FILENAME_SIZE_def strncmp_eq_numeral)
  have nxt: "dir_iter_next_used g1 (iter_at 0 0) = Some (Inl ENOENT, g1)"
    using e cl0 by (intro dir_iter_next_used_end) (simp_all add: empty_dir_def)
  have dc: "dir_contains g1 0 name = Some (Inl ENOENT, g1)"
    using init ncmp nxt by (simp add: dir_contains_def dir_contains_loop.simps [of g1])
  have nu: "\<not> dir_entry_used (entry_get g1 (ClusterEntry 0 0))"
    using d0 ld cl0 dir_entry_used_at [of 0 "c_data c"]
    by (simp add: entry_get_def consts_defs)
  have fe: "find_empty_entry g1 it 0 = Some ((Inr (), iter_at 0 0), g1)" for it
    using init nu by (simp add: find_empty_entry_def find_empty_loop.simps [of g1])
  have al: "alloc_clusters g1 1 True = (Inl ENOSPC, g1)"
    using cnt by (simp add: alloc_clusters_def alloc_loop.simps [of g1])
  show "create_entry g (47 # name) True = Some (Inl ENOSPC, g1)"
    using lk isdir rc nf dc fe al
    by (simp add: create_entry_def create_entry_finish_def Let_def)
  show "create_entry g (47 # name) False = Some (create_entry_store g1 (iter_at 0 0) name False 0)"
    using lk isdir rc nf dc fe
    by (simp add: create_entry_def create_entry_finish_def Let_def)
qed

lemma format_mount_one:
  assumes len: "length st = HEADER_SIZE + CLUSTER_SIZE" and md: "\<forall>x. length (md5 x) = 16"
  shows "format_mount md5 st = Inr (fresh_one (formatted_one md5 st))"
    and "cluster_get (fresh_one (formatted_one md5 st)) 0
           = (Inr 0, (fresh_one (formatted_one md5 st))
                       \<lparr>clusters := (clusters (fresh_one (formatted_one md5 st)))
                                       (0 \<mapsto> formatted_root st)\<rparr>)"
    and "empty_dir (formatted_root st)"
proof -
  let ?c = "formatted_root st"
  let ?g = "fresh_one (formatted_one md5 st)"
  have l: "HEADER_SIZE + CLUSTER_SIZE \<le> length st" using len by simp
  note rf = formatted_root_fields [OF l]
  have lb: "length (bytes_of_cluster ?c) = CLUSTER_SIZE"
    using rf(3) by (rule length_bytes_of_cluster)
  show "format_mount md5 st = Inr ?g"
    using format_one_cluster [OF len md] mount_one_cluster [OF rf(3) md]
    by (simp add: format_mount_def formatted_one_def)
  have um: "unmark_cluster ?c = ?c" using rf(2) by (simp add: unmark_cluster_def)
  have rd: "read_cluster ?g 0 = Inr ?c"
    using md lb cluster_of_bytes_of_cluster [OF rf(3)] um
    by (simp add: read_cluster_def stegger_read_def fresh_one_def formatted_one_def
                  HEADER_SIZE_def)
  show "cluster_get ?g 0 = (Inr 0, ?g\<lparr>clusters := (clusters ?g)(0 \<mapsto> ?c)\<rparr>)"
    using rd by (simp add: cluster_get_def) (simp add: fresh_one_def)
  show "empty_dir ?c" by (rule rf(4))
qed

text \<open>
  C6 (as the code has it). Formatting a byte stream of exactly 18 + 4096 bytes and mounting
  the result succeeds and gives a filesystem with \<open>cluster_count = 1\<close> and no free
  cluster. On it, \<open>mkdir\<close> of a name in the root directory fails with \<open>ENOSPC\<close>, because a
  directory needs a cluster of its own; \<open>create\<close> of a file with such a name succeeds,
  because an empty file needs no cluster and the root directory has free slots.
\<close>

theorem one_cluster_mkdir_nospace_create_ok:
  assumes "length st = HEADER_SIZE + CLUSTER_SIZE" and "\<forall>x. length (md5 x) = 16"
    and "plain_name name"
  shows "\<exists>g. format_mount md5 st = Inr g \<and> hdr_cluster_count g = 1 \<and> gfs_free_clusters g = 0
            \<and> map_option fst (ghostfs_mkdir g (47 # name)) = Some (Inl ENOSPC)
            \<and> map_option fst (ghostfs_create g (47 # name)) = Some (Inr ())"
proof -
  let ?g = "fresh_one (formatted_one md5 st)"
  let ?g1 = "?g\<lparr>clusters := (clusters ?g)(0 \<mapsto> formatted_root st)\<rparr>"
  note fm = format_mount_one [OF assms(1,2)]
  have cnt: "hdr_cluster_count ?g1 = 1" and root: "root_entry ?g1 = mounted_root_entry"
    and c0: "clusters ?g1 0 = Some (formatted_root st)"
    by (simp_all add: fresh_one_def)
  note cr = create_in_empty_root [OF fm(2) cnt root c0 fm(3) assms(3)]
  have "map_option fst (ghostfs_mkdir ?g (47 # name)) = Some (Inl ENOSPC)"
    using cr(1) by (simp add: ghostfs_mkdir_def)
  moreover have "map_option fst (ghostfs_create ?g (47 # name)) = Some (Inr ())"
    using cr(2) by (simp add: ghostfs_create_def create_entry_store_def Let_def)
  moreover have "hdr_cluster_count ?g = 1" "gfs_free_clusters ?g = 0"
    by (simp_all add: fresh_one_def)
  ultimately show ?thesis using fm(1) by blast
qed

lemma plain_name_a: "plain_name (str ''a'')"
  by (simp add: plain_name_def str_def FILENAME_SIZE_def)

lemma toy_md5_length: "\<forall>x. length (toy_md5 x) = 16"
  by (simp add: toy_md5_def)

theorem one_cluster_mkdir_nospace_create_ok_witness:
  "\<exists>g. format_mount toy_md5 (replicate (HEADER_SIZE + CLUSTER_SIZE) 0) = Inr g
       \<and> hdr_cluster_count g = 1 \<and> gfs_free_clusters g = 0
       \<and> map_option fst (ghostfs_mkdir g (str ''/a'')) = Some (Inl ENOSPC)
       \<and> map_option fst (ghostfs_create g (str ''/a'')) = Some (Inr ())"
proof -
  have s: "str ''/a'' = 47 # str ''a''" by (simp add: str_def)
  show ?thesis
    using one_cluster_mkdir_nospace_create_ok
            [of "replicate (HEADER_SIZE + CLUSTER_SIZE) 0" toy_md5 "str ''a''"]
          plain_name_a toy_md5_length
    by (simp add: s)
qed

text \<open>
  C6 (as claimed) fails: on the filesystem of one cluster, creating the file \<open>/a\<close> returns
  success, not \<open>ENOSPC\<close>.
\<close>

theorem create_succeeds_on_one_cluster:
  "run_format_create = Some (1, Inr ())"
proof -
  let ?st = "replicate (HEADER_SIZE + CLUSTER_SIZE) (0 :: byte)"
  let ?g = "fresh_one (formatted_one toy_md5 ?st)"
  let ?g1 = "?g\<lparr>clusters := (clusters ?g)(0 \<mapsto> formatted_root ?st)\<rparr>"
  have s: "str ''/a'' = 47 # str ''a''" by (simp add: str_def)
  have len: "length ?st = HEADER_SIZE + CLUSTER_SIZE" by simp
  note fm = format_mount_one [OF len toy_md5_length]
  have cnt: "hdr_cluster_count ?g1 = 1" and root: "root_entry ?g1 = mounted_root_entry"
    and c0: "clusters ?g1 0 = Some (formatted_root ?st)"
    by (simp_all add: fresh_one_def)
  have "create_entry ?g (47 # str ''a'') False
          = Some (create_entry_store ?g1 (iter_at 0 0) (str ''a'') False 0)"
    by (rule create_in_empty_root(2) [OF fm(2) cnt root c0 fm(3) plain_name_a])
  then have "map_option fst (ghostfs_create ?g (str ''/a'')) = Some (Inr ())"
    unfolding s by (simp add: ghostfs_create_def create_entry_store_def Let_def)
  moreover have "hdr_cluster_count ?g = 1" by (simp add: fresh_one_def)
  ultimately show ?thesis
    using fm(1) by (auto simp: run_format_create_def)
qed

subsection \<open>Writing and reading back\<close>

lemma file_bytes_simps [simp]:
  "file_bytes g [] = []" "file_bytes g (c # cs) = c_data (cl g c) @ file_bytes g cs"
  "file_bytes g (cs @ cs') = file_bytes g cs @ file_bytes g cs'"
  by (simp_all add: file_bytes_def)

lemma file_chain_length:
  "file_chain g nr cs e \<Longrightarrow> length (file_bytes g cs) = CLUSTER_DATA * length cs"
  by (induction cs arbitrary: nr) auto

lemma file_chain_append:
  "file_chain g nr (cs @ cs') e \<longleftrightarrow> (\<exists>m. file_chain g nr cs m \<and> file_chain g m cs' e)"
  by (induction cs arbitrary: nr) auto

lemma file_chain_cong:
  assumes "hdr_cluster_count g' = hdr_cluster_count g"
    and "\<forall>c \<in> set cs. cached g' c \<and> c_next (cl g' c) = c_next (cl g c) \<and> c_used (cl g' c) \<noteq> 0
           \<and> length (c_data (cl g' c)) = CLUSTER_DATA"
    and "file_chain g nr cs e"
  shows "file_chain g' nr cs e"
  using assms(2,3) by (induction cs arbitrary: nr) (auto simp: assms(1))

lemma file_bytes_cong:
  "\<forall>c \<in> set cs. c_data (cl g' c) = c_data (cl g c) \<Longrightarrow> file_bytes g' cs = file_bytes g cs"
  by (induction cs) auto

lemma file_chain_props:
  "file_chain g nr cs e \<Longrightarrow> c \<in> set cs \<Longrightarrow>
     1 \<le> c \<and> c < unat (hdr_cluster_count g) \<and> cached g c \<and> c_used (cl g c) \<noteq> 0
     \<and> length (c_data (cl g c)) = CLUSTER_DATA"
  by (induction cs arbitrary: nr) auto

lemma file_chain_start:
  "file_chain g nr cs e \<Longrightarrow> cs \<noteq> [] \<Longrightarrow> nr = hd cs"
  by (cases cs) auto

lemma file_chain_last:
  "file_chain g nr cs e \<Longrightarrow> cs \<noteq> [] \<Longrightarrow> unat (c_next (cl g (last cs))) = e"
  by (induction cs arbitrary: nr) (auto split: if_splits)

text \<open>\<open>cluster_at\<close> on a chain that ends with a null next pointer.\<close>

lemma cluster_at_chain:
  "file_chain g nr cs 0 \<Longrightarrow>
   cluster_at g nr k = (if k < length cs then Inr (cs ! k) else Inl EIO, g)"
proof (induction k arbitrary: nr cs)
  case 0
  then show ?case by (cases cs) (auto simp: cluster_get_cached)
next
  case (Suc k)
  show ?case
  proof (cases cs)
    case Nil
    then show ?thesis using Suc.prems by simp
  next
    case (Cons c rest)
    then have "file_chain g (unat (c_next (cl g c))) rest 0" and "nr = c" and "c \<noteq> 0"
      and "cluster_get g c = (Inr c, g)"
      using Suc.prems by (auto simp: cluster_get_cached)
    then show ?thesis using Suc.IH [of "unat (c_next (cl g c))" rest] Cons by simp
  qed
qed

declare read_loop.simps [simp del]

lemma read_loop_chain:
  assumes "file_chain g c (c # cs) 0" and "0 < sz" and "sz \<le> CLUSTER_DATA * length (c # cs)"
  shows "read_loop g c sz 0 buf = (Inr (buf @ take sz (file_bytes g (c # cs))), g)"
  using assms
proof (induction cs arbitrary: c sz buf)
  case Nil
  then show ?case by (simp add: read_loop.simps [of g c] Let_def)
next
  case (Cons c' cs)
  have l: "length (c_data (cl g c)) = CLUSTER_DATA" using Cons.prems(1) by simp
  show ?case
  proof (cases "sz \<le> CLUSTER_DATA")
    case True
    then show ?thesis using l Cons.prems(2) by (simp add: read_loop.simps [of g c] Let_def)
  next
    case False
    have nx: "unat (c_next (cl g c)) = c'" and ch: "file_chain g c' (c' # cs) 0"
      using Cons.prems(1) by auto
    have "c' \<noteq> 0" using ch by auto
    then have nz: "c_next (cl g c) \<noteq> 0" using nx by auto
    have get: "cluster_get_next g c = (Inr c', g)"
      using nz nx ch by (simp add: cluster_get_next_def cluster_get_cached)
    have "read_loop g c sz 0 buf
            = read_loop g c' (sz - CLUSTER_DATA) 0 (buf @ c_data (cl g c))"
      using False l get by (simp add: read_loop.simps [of g c] Let_def min_def)
    also have "\<dots> = (Inr ((buf @ c_data (cl g c)) @ take (sz - CLUSTER_DATA) (file_bytes g (c' # cs))), g)"
      using False Cons.prems(3) by (intro Cons.IH [OF ch]) simp_all
    finally show ?thesis using l False by simp
  qed
qed

lemma touched_refl: "touched g g X"
  by (simp add: touched_def)

lemma touched_trans:
  assumes "touched g g1 X" and "touched g1 g2 Y" and "X \<union> Y \<subseteq> Z"
  shows "touched g g2 Z"
proof -
  have "cl g2 x = cl g x" if "x \<notin> Z" for x
  proof -
    have "x \<notin> X" "x \<notin> Y" using that assms(3) by auto
    then show ?thesis using assms(1,2) by (simp add: touched_def)
  qed
  then show ?thesis using assms(1,2) by (simp add: touched_def)
qed

lemma touched_chain: "touched g g' X \<Longrightarrow> file_chain g nr cs e \<Longrightarrow> file_chain g' nr cs e"
  by (induction cs arbitrary: nr) (auto simp: touched_def)

lemma touched_bytes: "touched g g' X \<Longrightarrow> set cs \<inter> X = {} \<Longrightarrow> file_bytes g' cs = file_bytes g cs"
  by (rule file_bytes_cong) (auto simp: touched_def)

declare write_loop.simps [simp del]

lemma write_loop_chain:
  assumes "file_chain g c (c # cs) 0" and "distinct (c # cs)" and "off < CLUSTER_DATA"
    and "off + length buf \<le> CLUSTER_DATA * length (c # cs)"
  shows "\<exists>g'. write_loop g c buf off written = (Inr (written + length buf), g')
              \<and> touched g g' (set (c # cs))
              \<and> file_bytes g' (c # cs)
                   = take off (file_bytes g (c # cs)) @ buf
                       @ drop (off + length buf) (file_bytes g (c # cs))"
  using assms
proof (induction cs arbitrary: g c buf off written)
  case Nil
  have l: "length (c_data (cl g c)) = CLUSTER_DATA" and ca: "cached g c" using Nil.prems(1) by auto
  let ?w = "length buf"
  let ?g1 = "mark_cluster
               (upd_cluster g c (\<lambda>k. k\<lparr>c_data := memcpy_at (c_data k) off (take ?w buf)\<rparr>)) c"
  have "write_loop g c buf off written = (Inr (written + ?w), ?g1)"
    using Nil.prems(3,4) by (simp add: write_loop.simps [of g c] Let_def min_def)
  moreover have "touched g ?g1 {c}"
    using l ca Nil.prems(3,4) by (auto simp: touched_def)
  moreover have "file_bytes ?g1 [c] = take off (file_bytes g [c]) @ buf
                   @ drop (off + length buf) (file_bytes g [c])"
    using l by (simp add: memcpy_at_def)
  ultimately show ?case by auto
next
  case (Cons c' cs)
  have l: "length (c_data (cl g c)) = CLUSTER_DATA" and ca: "cached g c"
    using Cons.prems(1) by auto
  show ?case
  proof (cases "off + length buf \<le> CLUSTER_DATA")
    case True
    let ?w = "length buf"
    let ?g1 = "mark_cluster
                 (upd_cluster g c (\<lambda>k. k\<lparr>c_data := memcpy_at (c_data k) off (take ?w buf)\<rparr>)) c"
    have "write_loop g c buf off written = (Inr (written + ?w), ?g1)"
      using True Cons.prems(3) by (simp add: write_loop.simps [of g c] Let_def min_def)
    moreover have t: "touched g ?g1 {c}"
      using l ca True by (auto simp: touched_def)
    moreover have "file_bytes ?g1 (c' # cs) = file_bytes g (c' # cs)"
      using Cons.prems(2) by (intro touched_bytes [OF t]) auto
    then have "file_bytes ?g1 (c # c' # cs) = take off (file_bytes g (c # c' # cs)) @ buf
                   @ drop (off + length buf) (file_bytes g (c # c' # cs))"
      using l True by (simp add: memcpy_at_def)
    moreover have "touched g ?g1 (set (c # c' # cs))"
      using t by (auto simp: touched_def)
    ultimately show ?thesis by blast
  next
    case False
    let ?w = "CLUSTER_DATA - off"
    let ?g1 = "mark_cluster
                 (upd_cluster g c (\<lambda>k. k\<lparr>c_data := memcpy_at (c_data k) off (take ?w buf)\<rparr>)) c"
    have t: "touched g ?g1 {c}"
      using l ca False Cons.prems(3) by (auto simp: touched_def)
    have nx: "unat (c_next (cl g c)) = c'" and ch: "file_chain g c' (c' # cs) 0"
      using Cons.prems(1) by auto
    have ch1: "file_chain ?g1 c' (c' # cs) 0" using touched_chain [OF t ch] .
    have "c' \<noteq> 0" using ch by auto
    then have nz: "c_next (cl ?g1 c) \<noteq> 0" using nx by auto
    have get: "cluster_get_next ?g1 c = (Inr c', ?g1)"
      using nz nx ch1 by (simp add: cluster_get_next_def cluster_get_cached)
    have w: "(let w0 = min (length buf) CLUSTER_DATA
              in if off + w0 > CLUSTER_DATA then w0 - ((off + w0) - CLUSTER_DATA) else w0) = ?w"
      using False Cons.prems(3) by (simp add: Let_def min_def)
    have nd: "\<not> length buf \<le> CLUSTER_DATA - off" using False Cons.prems(3) by simp
    have step: "write_loop g c buf off written = write_loop ?g1 c' (drop ?w buf) 0 (written + ?w)"
      using get w [unfolded Let_def] nd
      by (subst write_loop.simps) (simp add: Let_def)
    have "\<exists>g'. write_loop ?g1 c' (drop ?w buf) 0 (written + ?w)
                  = (Inr (written + ?w + length (drop ?w buf)), g')
              \<and> touched ?g1 g' (set (c' # cs))
              \<and> file_bytes g' (c' # cs)
                   = take 0 (file_bytes ?g1 (c' # cs)) @ drop ?w buf
                       @ drop (0 + length (drop ?w buf)) (file_bytes ?g1 (c' # cs))"
      using Cons.prems(2,3,4) False by (intro Cons.IH [OF ch1]) auto
    then obtain g' where
      r: "write_loop ?g1 c' (drop ?w buf) 0 (written + ?w)
            = (Inr (written + ?w + length (drop ?w buf)), g')"
      and t': "touched ?g1 g' (set (c' # cs))"
      and b: "file_bytes g' (c' # cs)
                = drop ?w buf @ drop (length buf - ?w) (file_bytes ?g1 (c' # cs))"
      by auto
    have b1: "file_bytes ?g1 (c' # cs) = file_bytes g (c' # cs)"
      using Cons.prems(2) by (intro touched_bytes [OF t]) auto
    have "cl g' c = cl ?g1 c" using t' Cons.prems(2) by (auto simp: touched_def)
    then have d: "c_data (cl g' c) = take off (c_data (cl g c)) @ take ?w buf"
      using l nd Cons.prems(3) by (simp add: memcpy_at_def min_def)
    have "file_bytes g' (c # c' # cs)
            = take off (file_bytes g (c # c' # cs)) @ buf
                @ drop (off + length buf) (file_bytes g (c # c' # cs))"
    proof -
      let ?d = "c_data (cl g c)" and ?R = "file_bytes g (c' # cs)"
      have e: "length buf - ?w = off + length buf - CLUSTER_DATA"
        using False Cons.prems(3) by simp
      have "file_bytes g' (c # c' # cs) = c_data (cl g' c) @ file_bytes g' (c' # cs)"
        by simp
      also have "\<dots> = (take off ?d @ take ?w buf) @ drop ?w buf @ drop (length buf - ?w) ?R"
        by (simp only: d b b1)
      also have "\<dots> = take off ?d @ buf @ drop (off + length buf - CLUSTER_DATA) ?R"
        by (simp add: e del: file_bytes_simps)
      also have "\<dots> = take off (?d @ ?R) @ buf @ drop (off + length buf) (?d @ ?R)"
        using l False Cons.prems(3) by (simp del: file_bytes_simps)
      also have "?d @ ?R = file_bytes g (c # c' # cs)" by simp
      finally show ?thesis .
    qed
    moreover have "touched g g' (set (c # c' # cs))"
      by (rule touched_trans [OF t t']) auto
    moreover have "written + ?w + length (drop ?w buf) = written + length buf"
      using False by simp
    ultimately show ?thesis using step r by auto
  qed
qed

lemma e_cluster_entry_get:
  "slot_in_cluster g (ClusterEntry c i) \<Longrightarrow>
   e_cluster (entry_get g (ClusterEntry c i))
     = u16_of_bytes [c_data (cl g c) ! (DIR_ENTRY_SIZE * i + FILENAME_SIZE + 4),
                     c_data (cl g c) ! (DIR_ENTRY_SIZE * i + FILENAME_SIZE + 5)]"
  by (simp add: slot_in_cluster_def entry_get_def e_cluster_dir_entry_at)

lemma entry_set_cluster_fields:
  assumes "slot_in_cluster g p"
  shows "e_cluster (entry_get (entry_set_cluster g p w) p) = w"
    and "e_size (entry_get (entry_set_cluster g p w) p) = e_size (entry_get g p)"
proof -
  obtain c i where p: "p = ClusterEntry c i"
    using assms by (cases p) (simp_all add: slot_in_cluster_def)
  have l: "FILENAME_SIZE + 4 + length (bytes_of_u16 w) \<le> DIR_ENTRY_SIZE"
    by (simp add: bytes_of_u16_def consts_defs)
  have s: "slot_in_cluster (entry_set_cluster g p w) (ClusterEntry c i)"
    using slot_in_cluster_entry_write [OF assms l] assms p by (simp add: entry_set_cluster_def)
  have b: "DIR_ENTRY_SIZE * i + (FILENAME_SIZE + 4) + length (bytes_of_u16 w) \<le> length (c_data (cl g c))"
    using assms p by (simp add: slot_in_cluster_def bytes_of_u16_def consts_defs)
  have "[memcpy_at (c_data (cl g c)) (DIR_ENTRY_SIZE * i + (FILENAME_SIZE + 4)) (bytes_of_u16 w)
           ! (DIR_ENTRY_SIZE * i + FILENAME_SIZE + 4),
         memcpy_at (c_data (cl g c)) (DIR_ENTRY_SIZE * i + (FILENAME_SIZE + 4)) (bytes_of_u16 w)
           ! (DIR_ENTRY_SIZE * i + FILENAME_SIZE + 5)] = bytes_of_u16 w"
    using b by (simp add: nth_memcpy_at) (simp add: bytes_of_u16_def)
  then show "e_cluster (entry_get (entry_set_cluster g p w) p) = w"
    using e_cluster_entry_get [OF s] p
    by (simp add: entry_set_cluster_def entry_write_def u16_of_bytes_of_u16)
  show "e_size (entry_get (entry_set_cluster g p w) p) = e_size (entry_get g p)"
    unfolding entry_set_cluster_def
    using assms l by (intro e_size_entry_write_other) simp_all
qed

lemma dir_entry_set_size_fields:
  assumes "slot_in_cluster g p"
  shows "e_size (entry_get (dir_entry_set_size g p w False) p) = w AND 0x7FFFFFFF"
    and "e_cluster (entry_get (dir_entry_set_size g p w False) p) = e_cluster (entry_get g p)"
proof -
  obtain c i where p: "p = ClusterEntry c i"
    using assms by (cases p) (simp_all add: slot_in_cluster_def)
  let ?bs = "bytes_of_u32 (w AND 0x7FFFFFFF)"
  have l: "FILENAME_SIZE + length ?bs \<le> DIR_ENTRY_SIZE"
    by (simp add: bytes_of_u32_def consts_defs)
  have s: "slot_in_cluster (entry_write g p FILENAME_SIZE ?bs) (ClusterEntry c i)"
    using slot_in_cluster_entry_write [OF assms l] assms p by simp
  show "e_size (entry_get (dir_entry_set_size g p w False) p) = w AND 0x7FFFFFFF"
    using e_size_entry_write_size [OF assms] by (simp add: dir_entry_set_size_def Let_def)
  have b: "DIR_ENTRY_SIZE * i + FILENAME_SIZE + length ?bs \<le> length (c_data (cl g c))"
    "DIR_ENTRY_SIZE * i + FILENAME_SIZE + 5 < length (c_data (cl g c))"
    using assms p by (simp_all add: slot_in_cluster_def bytes_of_u32_def consts_defs)
  have "e_cluster (entry_get (entry_write g p FILENAME_SIZE ?bs) p) = e_cluster (entry_get g p)"
    using e_cluster_entry_get [OF s] e_cluster_entry_get [of g c i] assms p b
    by (simp add: entry_write_def nth_memcpy_at bytes_of_u32_def)
  then show "e_cluster (entry_get (dir_entry_set_size g p w False) p) = e_cluster (entry_get g p)"
    by (simp add: dir_entry_set_size_def Let_def)
qed

lemma touched_entry_write:
  assumes "slot_in_cluster g (ClusterEntry d i)" and "cached g d" and "off + length bs \<le> DIR_ENTRY_SIZE"
  shows "touched g (entry_write g (ClusterEntry d i) off bs) {d}"
proof -
  have "DIR_ENTRY_SIZE * i + off + length bs \<le> length (c_data (cl g d))"
    using assms(1,3) by (simp add: slot_in_cluster_def)
  then show ?thesis using assms(2) by (auto simp: touched_def entry_write_def)
qed

lemma touched_mark: "cached g c \<Longrightarrow> touched g (mark_cluster g c) {c}"
  by (auto simp: touched_def)

lemma touched_entry:
  "touched g g' X \<Longrightarrow> d \<notin> X \<Longrightarrow> entry_get g' (ClusterEntry d i) = entry_get g (ClusterEntry d i)"
  by (simp add: touched_def entry_get_def)

lemma touched_slot:
  "touched g g' X \<Longrightarrow> slot_in_cluster g' p = slot_in_cluster g p"
  by (cases p) (simp_all add: touched_def slot_in_cluster_def)

lemma touched_loaded: "touched g g' X \<Longrightarrow> loaded g \<Longrightarrow> loaded g'"
  by (simp add: touched_def loaded_def)

lemma touched_free_set: "touched g g' X \<Longrightarrow> free_set g' = free_set g"
  by (simp add: touched_def free_set_def)

text \<open>Sizes.\<close>

lemma size_to_clusters_bounds:
  assumes "0 \<le> s"
  shows "0 \<le> size_to_clusters s" and "s \<le> int CLUSTER_DATA * size_to_clusters s"
    and "0 < s \<Longrightarrow> int CLUSTER_DATA * (size_to_clusters s - 1) < s"
    and "s mod int CLUSTER_DATA = 0 \<Longrightarrow> s = int CLUSTER_DATA * size_to_clusters s"
proof -
  define q r where "q = s div int CLUSTER_DATA" and "r = s mod int CLUSTER_DATA"
  have d: "s = 4092 * q + r" by (simp add: q_def r_def CLUSTER_DATA_def)
  have m: "0 \<le> r" "r < 4092" by (simp_all add: r_def CLUSTER_DATA_def)
  have q: "0 \<le> q" using assms by (simp add: q_def CLUSTER_DATA_def pos_imp_zdiv_nonneg_iff)
  have stc: "size_to_clusters s = q + (if r \<noteq> 0 then 1 else 0)"
    by (simp add: size_to_clusters_def q_def r_def)
  have c: "int CLUSTER_DATA = 4092" by (simp add: CLUSTER_DATA_def)
  show "0 \<le> size_to_clusters s" using q by (simp add: stc)
  show "s \<le> int CLUSTER_DATA * size_to_clusters s"
    unfolding stc c using d m by (cases "r = 0") simp_all
  show "int CLUSTER_DATA * (size_to_clusters s - 1) < s" if "0 < s"
    unfolding stc c using d m that by (cases "r = 0") simp_all
  show "s = int CLUSTER_DATA * size_to_clusters s" if "s mod int CLUSTER_DATA = 0"
    unfolding stc c using d that by (simp add: r_def)
qed

lemma size_to_clusters_mono:
  assumes "0 \<le> s" and "s \<le> n"
  shows "size_to_clusters s \<le> size_to_clusters n"
proof (rule ccontr)
  assume "\<not> size_to_clusters s \<le> size_to_clusters n"
  then have a: "size_to_clusters n \<le> size_to_clusters s - 1" by simp
  have "0 < s"
  proof (rule ccontr)
    assume "\<not> 0 < s"
    then have "s = 0" using assms(1) by simp
    then have "size_to_clusters s = 0" by (simp add: size_to_clusters_def)
    then show False using a size_to_clusters_bounds(1) [of n] assms by simp
  qed
  have "int CLUSTER_DATA * size_to_clusters n \<le> int CLUSTER_DATA * (size_to_clusters s - 1)"
    using a by (simp add: CLUSTER_DATA_def)
  also have "\<dots> < s" using size_to_clusters_bounds(3) [OF assms(1) \<open>0 < s\<close>] .
  also have "s \<le> n" by fact
  also have "n \<le> int CLUSTER_DATA * size_to_clusters n"
    using size_to_clusters_bounds(2) [of n] assms by simp
  finally show False by simp
qed

lemma size_to_clusters_zero: "size_to_clusters 0 = 0"
  by (simp add: size_to_clusters_def)

text \<open>Size words of files.\<close>

lemma size_word_small:
  assumes "uint (w :: 32 word) < 2 ^ 31"
  shows "w AND 0x7FFFFFFF = w" and "w AND 0x80000000 = 0"
proof -
  have m: "(0x7FFFFFFF :: 32 word) = mask 31" by (simp add: mask_eq_exp_minus_1)
  show "w AND 0x7FFFFFFF = w" unfolding m using assms by (simp add: mask_eq_iff)
  have "w AND mask 31 = w" using assms by (simp add: mask_eq_iff)
  then have "bit w 31 = bit (w AND mask 31) 31" by simp
  then have "\<not> bit w 31" by (simp add: bit_and_iff bit_mask_iff)
  moreover have "(0x80000000 :: 32 word) = 2 ^ 31" by simp
  ultimately show "w AND 0x80000000 = 0"
    by (simp only: and_exp_eq_0_iff_not_bit not_False_eq_True)
qed

lemma size_word_file:
  assumes "(w :: 32 word) AND 0x80000000 = 0"
  shows "uint w < 2 ^ 31"
proof -
  have e: "(0x80000000 :: 32 word) = 2 ^ 31" by simp
  have nb: "\<not> bit w 31"
    using assms unfolding e by (simp only: and_exp_eq_0_iff_not_bit not_False_eq_True)
  have "w AND mask 31 = w"
  proof (rule bit_word_eqI)
    fix k assume "k < LENGTH(32)"
    then have "k < 31 \<or> k = 31" by auto
    then show "bit (w AND mask 31) k = bit w k"
      using nb by (auto simp: bit_and_iff bit_mask_iff)
  qed
  then show ?thesis by (simp add: mask_eq_iff)
qed

lemma uint_file_size:
  "0 \<le> n \<Longrightarrow> n \<le> FILESIZE_MAX \<Longrightarrow> uint (word_of_int n :: 32 word) = n"
  by (simp add: uint_word_of_int FILESIZE_MAX_def)

lemma open_fileD:
  assumes "open_file g it cs"
  obtains d i where "it_entry it = ClusterEntry d i" and "it_cluster it = d" and "cached g d"
    and "d \<notin> free_set g" and "d \<notin> set cs" and "slot_in_cluster g (ClusterEntry d i)"
    and "loaded g" and "uint (e_size (entry_get g (ClusterEntry d i))) < 2 ^ 31"
    and "file_chain g (unat (e_cluster (entry_get g (ClusterEntry d i)))) cs 0" and "distinct cs"
    and "int (length cs) = size_to_clusters (uint (e_size (entry_get g (ClusterEntry d i))))"
proof (cases "it_entry it")
  case RootEntry
  then show ?thesis using assms by (simp add: open_file_def)
next
  case (ClusterEntry d i)
  have "uint (e_size (entry_get g (ClusterEntry d i))) < 2 ^ 31"
    using assms ClusterEntry
    by (intro size_word_file) (simp add: open_file_def dir_entry_is_directory_def)
  then show ?thesis using assms ClusterEntry that [of d i] by (simp add: open_file_def)
qed

lemma open_fileI:
  assumes "it_entry it = ClusterEntry d i" and "it_cluster it = d" and "cached g d"
    and "d \<notin> free_set g" and "d \<notin> set cs" and "slot_in_cluster g (ClusterEntry d i)"
    and "loaded g" and "uint (e_size (entry_get g (ClusterEntry d i))) < 2 ^ 31"
    and "file_chain g (unat (e_cluster (entry_get g (ClusterEntry d i)))) cs 0" and "distinct cs"
    and "int (length cs) = size_to_clusters (uint (e_size (entry_get g (ClusterEntry d i))))"
  shows "open_file g it cs"
  using assms size_word_small(2) [OF assms(8)]
  by (simp add: open_file_def dir_entry_is_directory_def)

text \<open>The end of \<open>do_truncate\<close>.\<close>

lemma do_truncate_finish_file:
  assumes it: "it_entry it = ClusterEntry d i" "it_cluster it = d"
    and d: "cached g d" "d \<notin> free_set g" "d \<notin> set cs" "slot_in_cluster g (ClusterEntry d i)"
    and l: "loaded g"
    and ch: "file_chain g (unat (e_cluster (entry_get g (ClusterEntry d i)))) cs 0" "distinct cs"
    and n: "0 \<le> n" "n \<le> FILESIZE_MAX" "int (length cs) = size_to_clusters n"
  shows "\<exists>g'. do_truncate_finish g it n = (Inr (), g') \<and> open_file g' it cs
              \<and> uint (e_size (entry_get g' (it_entry it))) = n
              \<and> file_bytes g' cs = file_bytes g cs"
proof -
  let ?p = "ClusterEntry d i"
  let ?w = "word_of_int n :: 32 word"
  let ?g1 = "dir_entry_set_size g ?p ?w False"
  let ?g2 = "mark_cluster ?g1 d"
  have u: "uint ?w = n" using n by (simp add: uint_file_size)
  then have lt: "uint ?w < 2 ^ 31" using n by (simp add: FILESIZE_MAX_def)
  have t1: "touched g ?g1 {d}"
    unfolding dir_entry_set_size_def Let_def
    using d by (intro touched_entry_write) (simp_all add: bytes_of_u32_def consts_defs)
  have "cached ?g1 d" using t1 d by (simp add: touched_def)
  then have t2: "touched ?g1 ?g2 {d}" by (rule touched_mark)
  have t: "touched g ?g2 {d}" by (rule touched_trans [OF t1 t2]) simp
  have sz: "e_size (entry_get ?g2 ?p) = ?w"
    using dir_entry_set_size_fields(1) [OF d(4), of ?w] size_word_small(1) [OF lt] by simp
  have ec: "e_cluster (entry_get ?g2 ?p) = e_cluster (entry_get g ?p)"
    using dir_entry_set_size_fields(2) [OF d(4), of ?w] by simp
  have "open_file ?g2 it cs"
  proof (rule open_fileI [OF it])
    show "cached ?g2 d" using t d by (simp add: touched_def)
    show "d \<notin> free_set ?g2" using touched_free_set [OF t] d by simp
    show "d \<notin> set cs" by fact
    show "slot_in_cluster ?g2 ?p" using touched_slot [OF t] d by simp
    show "loaded ?g2" using touched_loaded [OF t] l by simp
    show "uint (e_size (entry_get ?g2 ?p)) < 2 ^ 31" using sz lt by simp
    show "file_chain ?g2 (unat (e_cluster (entry_get ?g2 ?p))) cs 0"
      unfolding ec using touched_chain [OF t ch(1)] .
    show "distinct cs" by fact
    show "int (length cs) = size_to_clusters (uint (e_size (entry_get ?g2 ?p)))"
      using sz u n by simp
  qed
  moreover have "file_bytes ?g2 cs = file_bytes g cs"
    using d by (intro touched_bytes [OF t]) simp
  moreover have "uint (e_size (entry_get ?g2 (it_entry it))) = n" using sz u it by simp
  ultimately show ?thesis using it by (simp add: do_truncate_finish_def)
qed

text \<open>Chains of freshly allocated clusters.\<close>

lemma linked_Cons:
  "linked g (c # cs) \<longleftrightarrow> (cs \<noteq> [] \<longrightarrow> unat (c_next (cl g c)) = hd cs) \<and> linked g cs"
proof
  assume a: "linked g (c # cs)"
  have "unat (c_next (cl g c)) = hd cs" if "cs \<noteq> []"
    using a [unfolded linked_def, rule_format, of 0] that by (cases cs) simp_all
  moreover have "linked g cs"
    unfolding linked_def
  proof (intro allI impI)
    fix k assume "Suc k < length cs"
    then show "unat (c_next (cl g (cs ! k))) = cs ! Suc k"
      using a [unfolded linked_def, rule_format, of "Suc k"] by simp
  qed
  ultimately show "(cs \<noteq> [] \<longrightarrow> unat (c_next (cl g c)) = hd cs) \<and> linked g cs" by simp
next
  assume a: "(cs \<noteq> [] \<longrightarrow> unat (c_next (cl g c)) = hd cs) \<and> linked g cs"
  show "linked g (c # cs)"
    unfolding linked_def
  proof (intro allI impI)
    fix k assume k: "Suc k < length (c # cs)"
    show "unat (c_next (cl g ((c # cs) ! k))) = (c # cs) ! Suc k"
    proof (cases k)
      case 0
      then show ?thesis using a k by (cases cs) simp_all
    next
      case (Suc j)
      then show ?thesis using a k by (simp add: linked_def)
    qed
  qed
qed

lemma linked_file_chain:
  assumes "linked g cs" and "cs \<noteq> []" and "c_next (cl g (last cs)) = 0"
    and "\<forall>c \<in> set cs. 1 \<le> c \<and> c < unat (hdr_cluster_count g) \<and> cached g c
           \<and> c_used (cl g c) \<noteq> 0 \<and> length (c_data (cl g c)) = CLUSTER_DATA"
  shows "file_chain g (hd cs) cs 0"
  using assms
proof (induction cs)
  case Nil
  then show ?case by simp
next
  case (Cons c cs)
  show ?case
  proof (cases "cs = []")
    case True
    then show ?thesis using Cons.prems by simp
  next
    case False
    then have "file_chain g (hd cs) cs 0"
      using Cons.prems by (intro Cons.IH) (simp_all add: linked_Cons)
    moreover have "unat (c_next (cl g c)) = hd cs"
      using Cons.prems(1) False by (simp add: linked_Cons)
    ultimately show ?thesis using Cons.prems(4) by simp
  qed
qed

text \<open>Linking a chain to a successor.\<close>

lemma file_chain_relink:
  assumes "file_chain g nr cs e" and "cs \<noteq> []" and "distinct cs"
    and "hdr_cluster_count g' = hdr_cluster_count g"
    and "\<forall>c \<in> set cs. cached g' c \<and> c_used (cl g' c) \<noteq> 0
           \<and> length (c_data (cl g' c)) = CLUSTER_DATA
           \<and> (c \<noteq> last cs \<longrightarrow> c_next (cl g' c) = c_next (cl g c))"
    and "unat (c_next (cl g' (last cs))) = m"
  shows "file_chain g' nr cs m"
  using assms(1,2,3,5,6)
proof (induction cs arbitrary: nr)
  case Nil
  then show ?case by simp
next
  case (Cons c cs)
  show ?case
  proof (cases "cs = []")
    case True
    then show ?thesis using Cons.prems assms(4) by simp
  next
    case False
    then have ne: "c \<noteq> last cs" using Cons.prems(3) by auto
    have "file_chain g' (unat (c_next (cl g c))) cs m"
      using Cons.prems False by (intro Cons.IH) auto
    then show ?thesis using Cons.prems(1,4) ne False assms(4) by simp
  qed
qed

lemma open_file_touched:
  assumes "open_file g it cs" and "touched g g' X" and "it_entry it = ClusterEntry d i"
    and "d \<notin> X"
  shows "open_file g' it cs" and "entry_get g' (it_entry it) = entry_get g (it_entry it)"
proof -
  from assms(1) obtain d' i' where o: "it_entry it = ClusterEntry d' i'" "it_cluster it = d'"
    "cached g d'" "d' \<notin> free_set g" "d' \<notin> set cs" "slot_in_cluster g (ClusterEntry d' i')"
    "loaded g" "uint (e_size (entry_get g (ClusterEntry d' i'))) < 2 ^ 31"
    "file_chain g (unat (e_cluster (entry_get g (ClusterEntry d' i')))) cs 0" "distinct cs"
    "int (length cs) = size_to_clusters (uint (e_size (entry_get g (ClusterEntry d' i'))))"
    by (rule open_fileD)
  have dd: "d' = d" "i' = i" using o(1) assms(3) by simp_all
  note t = assms(2)
  have e: "entry_get g' (ClusterEntry d i) = entry_get g (ClusterEntry d i)"
    using touched_entry [OF t assms(4)] .
  show "entry_get g' (it_entry it) = entry_get g (it_entry it)" using e assms(3) by simp
  show "open_file g' it cs"
  proof (rule open_fileI [OF assms(3)])
    show "it_cluster it = d" using o dd by simp
    show "cached g' d" using t o dd by (simp add: touched_def)
    show "d \<notin> free_set g'" using touched_free_set [OF t] o dd by simp
    show "d \<notin> set cs" using o dd by simp
    show "slot_in_cluster g' (ClusterEntry d i)" using touched_slot [OF t] o dd by simp
    show "loaded g'" using touched_loaded [OF t] o by simp
    show "uint (e_size (entry_get g' (ClusterEntry d i))) < 2 ^ 31" using e o dd by simp
    show "file_chain g' (unat (e_cluster (entry_get g' (ClusterEntry d i)))) cs 0"
      unfolding e using touched_chain [OF t] o dd by simp
    show "distinct cs" by fact
    show "int (length cs) = size_to_clusters (uint (e_size (entry_get g' (ClusterEntry d i))))"
      using e o dd by simp
  qed
qed

lemma file_bytes_zero:
  "\<forall>c \<in> set cs. c_data (cl g c) = replicate CLUSTER_DATA 0 \<Longrightarrow>
   file_bytes g cs = replicate (CLUSTER_DATA * length cs) 0"
  by (induction cs) (simp_all add: replicate_add)

lemma open_file_same:
  assumes o: "open_file g it cs" and it: "it_entry it = ClusterEntry d i"
    and h: "hdr_cluster_count g' = hdr_cluster_count g"
    and cm: "\<forall>x. cached g x \<longrightarrow> cached g' x"
    and same: "\<forall>x \<in> insert d (set cs). cl g' x = cl g x"
  shows "open_file g' it cs" and "entry_get g' (it_entry it) = entry_get g (it_entry it)"
    and "file_bytes g' cs = file_bytes g cs"
proof -
  from o obtain d' i' where o: "it_entry it = ClusterEntry d' i'" "it_cluster it = d'"
    "cached g d'" "d' \<notin> free_set g" "d' \<notin> set cs" "slot_in_cluster g (ClusterEntry d' i')"
    "loaded g" "uint (e_size (entry_get g (ClusterEntry d' i'))) < 2 ^ 31"
    "file_chain g (unat (e_cluster (entry_get g (ClusterEntry d' i')))) cs 0" "distinct cs"
    "int (length cs) = size_to_clusters (uint (e_size (entry_get g (ClusterEntry d' i'))))"
    by (rule open_fileD)
  have dd: "d' = d" "i' = i" using o(1) it by simp_all
  have cd: "cl g' d = cl g d" using same by simp
  have e: "entry_get g' (ClusterEntry d i) = entry_get g (ClusterEntry d i)"
    using cd by (simp add: entry_get_def)
  show "entry_get g' (it_entry it) = entry_get g (it_entry it)" using e it by simp
  show "file_bytes g' cs = file_bytes g cs" using same by (intro file_bytes_cong) simp
  show "open_file g' it cs"
  proof (rule open_fileI [OF it])
    show "it_cluster it = d" using o dd by simp
    show "cached g' d" using cm o dd by simp
    show "d \<notin> free_set g'" using o(4) dd cd h by (simp add: free_set_def)
    show "d \<notin> set cs" using o dd by simp
    show "slot_in_cluster g' (ClusterEntry d i)" using o(6) dd cd by (simp add: slot_in_cluster_def)
    show "loaded g'" using o(7) cm h by (simp add: loaded_def)
    show "uint (e_size (entry_get g' (ClusterEntry d i))) < 2 ^ 31" using e o dd by simp
    show "file_chain g' (unat (e_cluster (entry_get g' (ClusterEntry d i)))) cs 0"
      unfolding e
    proof (rule file_chain_cong [OF h])
      show "file_chain g (unat (e_cluster (entry_get g (ClusterEntry d i)))) cs 0"
        using o dd by simp
      show "\<forall>c\<in>set cs. cached g' c \<and> c_next (cl g' c) = c_next (cl g c)
              \<and> c_used (cl g' c) \<noteq> 0 \<and> length (c_data (cl g' c)) = CLUSTER_DATA"
        using file_chain_props [OF o(9)] same cm by auto
    qed
    show "distinct cs" by fact
    show "int (length cs) = size_to_clusters (uint (e_size (entry_get g' (ClusterEntry d i))))"
      using e o dd by simp
  qed
qed

text \<open>\<open>alloc_clusters\<close> gave up.\<close>

lemma grow_failed:
  assumes o: "open_file g it cs" and af: "alloc_failed g g'"
  shows "open_file g' it cs" and "entry_get g' (it_entry it) = entry_get g (it_entry it)"
    and "file_bytes g' cs = file_bytes g cs"
proof -
  from o obtain d i where it: "it_entry it = ClusterEntry d i"
    and d: "d \<notin> free_set g" "d \<notin> set cs"
    and ch: "file_chain g (unat (e_cluster (entry_get g (ClusterEntry d i)))) cs 0"
    by (rule open_fileD)
  have used: "c \<notin> free_set g" if "c \<in> set cs" for c
    using file_chain_props [OF ch that] by (simp add: free_set_def)
  have same: "\<forall>x \<in> insert d (set cs). cl g' x = cl g x"
    using af used d by (auto simp: alloc_failed_def)
  have h: "hdr_cluster_count g' = hdr_cluster_count g"
    and cm: "\<forall>x. cached g x \<longrightarrow> cached g' x"
    using af by (simp_all add: alloc_failed_def)
  show "open_file g' it cs" and "entry_get g' (it_entry it) = entry_get g (it_entry it)"
    and "file_bytes g' cs = file_bytes g cs"
    using open_file_same [OF o it h cm same] by simp_all
qed

text \<open>\<open>alloc_clusters\<close> succeeded: the new clusters are linked behind the chain (or stored in
  the entry) and the size is set.\<close>

lemma grow_linked:
  assumes o: "open_file g it cs" and ad: "alloc_done g g2 True cs'" and ne: "cs' \<noteq> []"
    and n: "0 \<le> n" "n \<le> FILESIZE_MAX" "int (length cs + length cs') = size_to_clusters n"
  shows "\<exists>g'. do_truncate_finish
                (case (if cs = [] then None else Some (last cs)) of
                   Some q \<Rightarrow> mark_cluster (upd_cluster g2 q (\<lambda>k. k\<lparr>c_next := of_nat (hd cs')\<rparr>)) q
                 | None \<Rightarrow> entry_set_cluster g2 (it_entry it) (of_nat (hd cs')))
                it n = (Inr (), g')
              \<and> open_file g' it (cs @ cs')
              \<and> uint (e_size (entry_get g' (it_entry it))) = n
              \<and> file_bytes g' (cs @ cs') = file_bytes g cs @ replicate (CLUSTER_DATA * length cs') 0"
proof -
  from o obtain d i where it: "it_entry it = ClusterEntry d i" "it_cluster it = d"
    and d: "cached g d" "d \<notin> free_set g" "d \<notin> set cs" "slot_in_cluster g (ClusterEntry d i)"
    and l: "loaded g"
    and ch: "file_chain g (unat (e_cluster (entry_get g (ClusterEntry d i)))) cs 0" "distinct cs"
    and len: "int (length cs) = size_to_clusters (uint (e_size (entry_get g (ClusterEntry d i))))"
    by (rule open_fileD)
  let ?p = "ClusterEntry d i"
  let ?g3 = "case (if cs = [] then None else Some (last cs)) of
               Some q \<Rightarrow> mark_cluster (upd_cluster g2 q (\<lambda>k. k\<lparr>c_next := of_nat (hd cs')\<rparr>)) q
             | None \<Rightarrow> entry_set_cluster g2 ?p (of_nat (hd cs'))"
  have h2: "hdr_cluster_count g2 = hdr_cluster_count g"
    and cm2: "\<forall>x. cached g x \<longrightarrow> cached g2 x"
    and dist': "distinct cs'" and sub: "set cs' \<subseteq> free_set g"
    and new: "\<forall>c \<in> set cs'. c_used (cl g2 c) = 1 \<and> c_data (cl g2 c) = replicate CLUSTER_DATA 0"
    and old: "\<forall>x. x \<notin> set cs' \<longrightarrow> cl g2 x = cl g x"
    and lk: "linked g2 cs'" and lst: "c_next (cl g2 (last cs')) = 0"
    using ad ne by (simp_all add: alloc_done_def)
  have used: "c \<notin> free_set g" if "c \<in> set cs" for c
    using file_chain_props [OF ch(1) that] by (simp add: free_set_def)
  have disj: "set cs \<inter> set cs' = {}" using used sub by auto
  have dn: "d \<notin> set cs'" using d(2) sub by auto
  have same2: "\<forall>x \<in> insert d (set cs). cl g2 x = cl g x" using old disj dn by auto
  note o2 = open_file_same [OF o it(1) h2 cm2 same2]
  have rng: "1 \<le> c \<and> c < unat (hdr_cluster_count g2) \<and> cached g2 c" if "c \<in> set cs'" for c
  proof -
    have "c \<in> free_set g" using that sub by auto
    then have "1 \<le> c" "c < unat (hdr_cluster_count g)" by (simp_all add: free_set_def)
    then show ?thesis using l cm2 h2 by (simp add: loaded_def)
  qed
  have ch': "file_chain g2 (hd cs') cs' 0"
    using lk ne lst rng new by (intro linked_file_chain) (auto simp: CLUSTER_DATA_def)
  have hd16: "unat (of_nat (hd cs') :: 16 word) = hd cs'"
  proof -
    have "hd cs' < unat (hdr_cluster_count g2)" using rng [of "hd cs'"] ne by simp
    then have "hd cs' < 65536" using unat_count_bound [of "hdr_cluster_count g2"] by simp
    then show ?thesis by (rule unat_of_nat_u16)
  qed
  have ch2: "file_chain g2 (unat (e_cluster (entry_get g2 ?p))) cs 0" and d2: "cached g2 d"
    "d \<notin> free_set g2" "slot_in_cluster g2 ?p" and l2: "loaded g2"
    using o2(1) it by (auto elim!: open_fileD)
  have e2: "entry_get g2 ?p = entry_get g ?p" using o2(2) it by simp
  have pre: "cached ?g3 d \<and> d \<notin> free_set ?g3 \<and> slot_in_cluster ?g3 ?p \<and> loaded ?g3
             \<and> file_chain ?g3 (unat (e_cluster (entry_get ?g3 ?p))) (cs @ cs') 0
             \<and> file_bytes ?g3 (cs @ cs') = file_bytes g2 (cs @ cs')"
  proof (cases "cs = []")
    case True
    let ?g = "entry_set_cluster g2 ?p (of_nat (hd cs'))"
    have g3: "?g3 = ?g" using True by simp
    have t: "touched g2 ?g {d}"
      unfolding entry_set_cluster_def
      using d2 by (intro touched_entry_write) (simp_all add: bytes_of_u16_def consts_defs)
    have ec: "unat (e_cluster (entry_get ?g ?p)) = hd cs'"
      using entry_set_cluster_fields(1) [OF d2(3)] hd16 by simp
    have "file_chain ?g (hd cs') cs' 0" using touched_chain [OF t ch'] .
    moreover have "file_bytes ?g (cs @ cs') = file_bytes g2 (cs @ cs')"
      using dn True by (intro touched_bytes [OF t]) simp
    moreover have "cached ?g d" "d \<notin> free_set ?g" "slot_in_cluster ?g ?p" "loaded ?g"
      using t d2 l2 touched_free_set [OF t] touched_slot [OF t] touched_loaded [OF t]
      by (simp_all add: touched_def)
    ultimately show ?thesis unfolding g3 using ec True by simp
  next
    case False
    let ?q = "last cs"
    let ?g = "mark_cluster (upd_cluster g2 ?q (\<lambda>k. k\<lparr>c_next := of_nat (hd cs')\<rparr>)) ?q"
    have g3: "?g3 = ?g" using False by simp
    have q: "?q \<in> set cs" using False by simp
    then have qd: "?q \<noteq> d" and qn: "?q \<notin> set cs'" using d(3) disj by auto
    have cl3: "cl ?g x = (if x = ?q then (cl g2 x)\<lparr>c_next := of_nat (hd cs'), c_dirty := 1\<rparr>
                          else cl g2 x)" for x
      by simp
    have h3: "hdr_cluster_count ?g = hdr_cluster_count g2" by simp
    have cm3: "cached g2 x \<Longrightarrow> cached ?g x" for x by simp
    have e3: "entry_get ?g ?p = entry_get g2 ?p" using qd by (simp add: entry_get_def)
    have a: "file_chain ?g (unat (e_cluster (entry_get g2 ?p))) cs (hd cs')"
    proof (rule file_chain_relink [OF ch2 False ch(2) h3])
      show "unat (c_next (cl ?g ?q)) = hd cs'" using hd16 by simp
      show "\<forall>c\<in>set cs. cached ?g c \<and> c_used (cl ?g c) \<noteq> 0
              \<and> length (c_data (cl ?g c)) = CLUSTER_DATA
              \<and> (c \<noteq> ?q \<longrightarrow> c_next (cl ?g c) = c_next (cl g2 c))"
        using file_chain_props [OF ch2] by auto
    qed
    have b: "file_chain ?g (hd cs') cs' 0"
    proof (rule file_chain_cong [OF h3 _ ch'])
      show "\<forall>c\<in>set cs'. cached ?g c \<and> c_next (cl ?g c) = c_next (cl g2 c)
              \<and> c_used (cl ?g c) \<noteq> 0 \<and> length (c_data (cl ?g c)) = CLUSTER_DATA"
        using file_chain_props [OF ch'] qn by auto
    qed
    have "file_chain ?g (unat (e_cluster (entry_get ?g ?p))) (cs @ cs') 0"
      unfolding e3 file_chain_append using a b by blast
    moreover have "file_bytes ?g (cs @ cs') = file_bytes g2 (cs @ cs')"
      by (rule file_bytes_cong) simp
    moreover have "cached ?g d" using d2 by simp
    moreover have "d \<notin> free_set ?g" using d2(2) qd by (simp add: free_set_def)
    moreover have "slot_in_cluster ?g ?p" using d2(3) qd by (simp add: slot_in_cluster_def)
    moreover have "loaded ?g" using l2 by (simp add: loaded_def)
    ultimately show ?thesis unfolding g3 by simp
  qed
  have bytes2: "file_bytes g2 (cs @ cs') = file_bytes g cs @ replicate (CLUSTER_DATA * length cs') 0"
    using o2(3) file_bytes_zero [of cs' g2] new by simp
  have "\<exists>g'. do_truncate_finish ?g3 it n = (Inr (), g') \<and> open_file g' it (cs @ cs')
              \<and> uint (e_size (entry_get g' (it_entry it))) = n
              \<and> file_bytes g' (cs @ cs') = file_bytes ?g3 (cs @ cs')"
  proof (rule do_truncate_finish_file [OF it])
    show "cached ?g3 d" "d \<notin> free_set ?g3" "slot_in_cluster ?g3 ?p" "loaded ?g3"
      "file_chain ?g3 (unat (e_cluster (entry_get ?g3 ?p))) (cs @ cs') 0"
      using pre by simp_all
    show "d \<notin> set (cs @ cs')" using d(3) dn by simp
    show "distinct (cs @ cs')" using ch(2) dist' disj by simp
    show "0 \<le> n" "n \<le> FILESIZE_MAX" by fact+
    show "int (length (cs @ cs')) = size_to_clusters n" using n(3) by simp
  qed
  then show ?thesis using pre bytes2 it by auto
qed

lemma zero_tail_file:
  assumes o: "open_file g it cs"
  shows "open_file (zero_tail g cs (uint (e_size (entry_get g (it_entry it))) mod int CLUSTER_DATA))
           it cs"
    and "entry_get (zero_tail g cs (uint (e_size (entry_get g (it_entry it))) mod int CLUSTER_DATA))
           (it_entry it) = entry_get g (it_entry it)"
    and "file_bytes (zero_tail g cs (uint (e_size (entry_get g (it_entry it))) mod int CLUSTER_DATA)) cs
           = take (nat (uint (e_size (entry_get g (it_entry it))))) (file_bytes g cs)
               @ replicate (CLUSTER_DATA * length cs
                              - nat (uint (e_size (entry_get g (it_entry it))))) 0"
proof -
  from o obtain d i where it: "it_entry it = ClusterEntry d i"
    and d: "d \<notin> set cs"
    and ch: "file_chain g (unat (e_cluster (entry_get g (ClusterEntry d i)))) cs 0" "distinct cs"
    and len: "int (length cs) = size_to_clusters (uint (e_size (entry_get g (ClusterEntry d i))))"
    by (rule open_fileD)
  define s where "s = uint (e_size (entry_get g (it_entry it)))"
  define q r where "q = s div int CLUSTER_DATA" and "r = s mod int CLUSTER_DATA"
  have s0: "0 \<le> s" by (simp add: s_def)
  have dv: "s = 4092 * q + r" by (simp add: q_def r_def CLUSTER_DATA_def)
  have m: "0 \<le> r" "r < 4092" by (simp_all add: r_def CLUSTER_DATA_def)
  have q0: "0 \<le> q" using s0 by (simp add: q_def CLUSTER_DATA_def pos_imp_zdiv_nonneg_iff)
  have lc: "int (length cs) = q + (if r \<noteq> 0 then 1 else 0)"
    using len it by (simp add: size_to_clusters_def q_def r_def s_def)
  let ?g1 = "zero_tail g cs r"
  have "open_file ?g1 it cs \<and> entry_get ?g1 (it_entry it) = entry_get g (it_entry it)
        \<and> file_bytes ?g1 cs = take (nat s) (file_bytes g cs)
                                 @ replicate (CLUSTER_DATA * length cs - nat s) 0"
  proof (cases "r = 0")
    case True
    then have "int (CLUSTER_DATA * length cs) = s" using lc dv by (simp add: CLUSTER_DATA_def)
    then have "nat s = CLUSTER_DATA * length cs" by linarith
    then show ?thesis using True o file_chain_length [OF ch(1)] by (simp add: zero_tail_def)
  next
    case False
    then have ne: "cs \<noteq> []" using lc m q0 by auto
    let ?q = "last cs"
    let ?u = "nat r"
    have u: "0 < ?u" "?u < CLUSTER_DATA" using False m by (simp_all add: CLUSTER_DATA_def)
    have g1: "?g1 = mark_cluster
               (upd_cluster g ?q
                  (\<lambda>k. k\<lparr>c_data := memcpy_at (c_data k) ?u (replicate (CLUSTER_DATA - ?u) 0)\<rparr>)) ?q"
      using False ne by (simp add: zero_tail_def)
    have qin: "?q \<in> set cs" using ne by simp
    note qp = file_chain_props [OF ch(1) qin]
    have lq: "length (c_data (cl g ?q)) = CLUSTER_DATA" using qp by simp
    have t: "touched g ?g1 {?q}"
      unfolding g1 using qp u by (auto simp: touched_def)
    have qd: "d \<notin> {?q}" using d qin by auto
    note o1 = open_file_touched [OF o t it qd]
    have split: "cs = butlast cs @ [?q]" using ne by simp
    have nb: "?q \<notin> set (butlast cs)"
      using ch(2) split by (metis distinct_butlast not_distinct_conv_prefix)
    obtain m' where chb: "file_chain g (unat (e_cluster (entry_get g (ClusterEntry d i)))) (butlast cs) m'"
      using ch(1) file_chain_append [of g _ "butlast cs" "[?q]" 0] split by metis
    have lb: "length (file_bytes g (butlast cs)) = CLUSTER_DATA * (length cs - 1)"
      using file_chain_length [OF chb] by simp
    have l1: "1 \<le> length cs" using ne by (cases cs) simp_all
    have "int (CLUSTER_DATA * (length cs - 1) + ?u) = s"
      using lc dv False m l1 by (simp add: CLUSTER_DATA_def of_nat_diff)
    then have ns: "nat s = CLUSTER_DATA * (length cs - 1) + ?u" by linarith
    have rest: "CLUSTER_DATA * length cs - nat s = CLUSTER_DATA - ?u"
      using ns l1 u by (cases "length cs") (simp_all add: CLUSTER_DATA_def)
    have "file_bytes ?g1 cs = file_bytes ?g1 (butlast cs) @ c_data (cl ?g1 ?q)"
      by (subst split) simp
    also have "file_bytes ?g1 (butlast cs) = file_bytes g (butlast cs)"
      using nb by (intro touched_bytes [OF t]) simp
    also have "c_data (cl ?g1 ?q) = take ?u (c_data (cl g ?q)) @ replicate (CLUSTER_DATA - ?u) 0"
      unfolding g1 using lq u by (simp add: memcpy_at_def)
    finally have a: "file_bytes ?g1 cs = file_bytes g (butlast cs) @ take ?u (c_data (cl g ?q))
                        @ replicate (CLUSTER_DATA - ?u) 0" .
    have "file_bytes g cs = file_bytes g (butlast cs) @ c_data (cl g ?q)"
      by (subst split) simp
    then have "take (nat s) (file_bytes g cs) = file_bytes g (butlast cs) @ take ?u (c_data (cl g ?q))"
      using lb ns by simp
    then show ?thesis using a rest o1 by simp
  qed
  then show "open_file (zero_tail g cs (uint (e_size (entry_get g (it_entry it))) mod int CLUSTER_DATA))
           it cs"
    and "entry_get (zero_tail g cs (uint (e_size (entry_get g (it_entry it))) mod int CLUSTER_DATA))
           (it_entry it) = entry_get g (it_entry it)"
    and "file_bytes (zero_tail g cs (uint (e_size (entry_get g (it_entry it))) mod int CLUSTER_DATA)) cs
           = take (nat (uint (e_size (entry_get g (it_entry it))))) (file_bytes g cs)
               @ replicate (CLUSTER_DATA * length cs
                              - nat (uint (e_size (entry_get g (it_entry it))))) 0"
    by (simp_all add: r_def s_def)
qed

lemma alloc_clusters_result:
  assumes "loaded g" and "0 < k"
  shows "(\<exists>g' cs'. alloc_clusters g k True = (Inr (hd cs'), g') \<and> alloc_done g g' True cs'
                     \<and> length cs' = k)
         \<or> (\<exists>g'. alloc_clusters g k True = (Inl ENOSPC, g') \<and> alloc_failed g g')"
proof -
  from alloc_loop_result [OF alloc_inv_start assms(1), of k True]
  consider g' cs' where "alloc_loop g k True 1 0 0 None = (Inr (case cs' of [] \<Rightarrow> 0 | c # _ \<Rightarrow> c), g')"
      "alloc_done g g' True cs'" "length cs' = k"
    | g' where "alloc_loop g k True 1 0 0 None = (Inl ENOSPC, g')" "alloc_failed g g'"
    by auto
  then show ?thesis
  proof cases
    case 1
    then have "cs' \<noteq> []" using assms(2) by auto
    then have "(case cs' of [] \<Rightarrow> 0 | c # _ \<Rightarrow> c) = hd cs'" by (cases cs') simp_all
    then show ?thesis using 1 by (auto simp: alloc_clusters_def)
  next
    case 2
    then show ?thesis by (auto simp: alloc_clusters_def)
  qed
qed

text \<open>\<open>do_truncate\<close> to a larger size.\<close>

lemma do_truncate_grows:
  assumes o: "open_file g it cs" and gt: "uint (e_size (entry_get g (it_entry it))) < n"
    and mx: "n \<le> FILESIZE_MAX"
  shows "\<exists>r g' cs'. do_truncate g it n = Some (r, g') \<and> open_file g' it cs'
           \<and> file_bytes g' cs'
               = take (nat (uint (e_size (entry_get g (it_entry it))))) (file_bytes g cs)
                   @ replicate (CLUSTER_DATA * length cs'
                                  - nat (uint (e_size (entry_get g (it_entry it))))) 0
           \<and> uint (e_size (entry_get g' (it_entry it)))
               = (case r of Inl e \<Rightarrow> uint (e_size (entry_get g (it_entry it))) | Inr _ \<Rightarrow> n)"
proof -
  from o obtain d i where it: "it_entry it = ClusterEntry d i"
    and ch: "file_chain g (unat (e_cluster (entry_get g (ClusterEntry d i)))) cs 0"
    and len: "int (length cs) = size_to_clusters (uint (e_size (entry_get g (ClusterEntry d i))))"
    by (rule open_fileD)
  define s where "s = uint (e_size (entry_get g (it_entry it)))"
  have s0: "0 \<le> s" by (simp add: s_def)
  have gt': "s < n" using gt by (simp add: s_def)
  have n0: "0 \<le> n" "0 < n" using gt' s0 by linarith+
  have nd: "\<not> dir_entry_is_directory (entry_get g (it_entry it))" using o by (simp add: open_file_def)
  have cnt: "size_to_clusters (min s n) = int (length cs)"
    using gt len it by (simp add: s_def min_def)
  define c where "c = (if cs = [] then None else Some (last cs))"
  have at: "(if int (length cs) \<noteq> 0 then
               (case cluster_at g (unat (e_cluster (entry_get g (it_entry it))))
                       (nat (int (length cs) - 1)) of
                  (Inl e, g') \<Rightarrow> (Inl e, g')
                | (Inr p, g') \<Rightarrow> (Inr (Some p, unat (c_next (cl g' p))), g'))
             else (Inr (None, unat (e_cluster (entry_get g (it_entry it)))), g))
            = (Inr (c, if cs = [] then unat (e_cluster (entry_get g (it_entry it)))
                       else unat (c_next (cl g (last cs)))), g)"
  proof (cases "cs = []")
    case True
    then show ?thesis by (simp add: c_def)
  next
    case False
    then have "nat (int (length cs) - 1) = length cs - 1" "length cs - 1 < length cs" by auto
    then show ?thesis
      using False cluster_at_chain [OF ch, of "length cs - 1"] it
      by (simp add: c_def last_conv_nth)
  qed
  define g1 where "g1 = zero_tail g cs (s mod int CLUSTER_DATA)"
  have o1: "open_file g1 it cs" and e1: "entry_get g1 (it_entry it) = entry_get g (it_entry it)"
    and b1: "file_bytes g1 cs = take (nat s) (file_bytes g cs)
                                  @ replicate (CLUSTER_DATA * length cs - nat s) 0"
    using zero_tail_file [OF o] by (simp_all add: g1_def s_def)
  define alloc where "alloc = size_to_clusters n - int (length cs)"
  have a0: "0 \<le> alloc"
    using size_to_clusters_mono [OF s0, of n] gt len it by (simp add: alloc_def s_def)
  have dt: "do_truncate g it n =
              Some (if alloc \<noteq> 0 then
                      (case alloc_clusters g1 (nat alloc) True of
                         (Inl e, g2) \<Rightarrow> (Inl e, g2)
                       | (Inr ret, g2) \<Rightarrow>
                           do_truncate_finish
                             (case (if cs = [] then None else Some (last cs)) of
                                Some p \<Rightarrow> mark_cluster (upd_cluster g2 p (\<lambda>k. k\<lparr>c_next := of_nat ret\<rparr>)) p
                              | None \<Rightarrow> entry_set_cluster g2 (it_entry it) (of_nat ret))
                             it n)
                    else do_truncate_finish g1 it n)"
    using n0 mx nd gt cnt at
    by (simp add: do_truncate_def do_truncate_grow_def Let_def s_def [symmetric] g1_def
                  zero_tail_def c_def alloc_def)
  have sl: "nat s \<le> CLUSTER_DATA * length cs"
  proof -
    have "s \<le> int CLUSTER_DATA * int (length cs)"
      using size_to_clusters_bounds(2) [OF s0] len it by (simp add: s_def)
    then have "s \<le> int (CLUSTER_DATA * length cs)" by simp
    then show ?thesis by linarith
  qed
  show ?thesis
    unfolding s_def [symmetric]
  proof (cases "alloc = 0")
    case True
    from o1 obtain d' i' where o1': "it_entry it = ClusterEntry d' i'" "it_cluster it = d'"
      "cached g1 d'" "d' \<notin> free_set g1" "d' \<notin> set cs" "slot_in_cluster g1 (ClusterEntry d' i')"
      "loaded g1" "file_chain g1 (unat (e_cluster (entry_get g1 (ClusterEntry d' i')))) cs 0"
      "distinct cs"
      by (rule open_fileD)
    have "int (length cs) = size_to_clusters n" using True by (simp add: alloc_def)
    from do_truncate_finish_file [OF o1'(1-7) o1'(8,9) n0(1) mx this]
    obtain g' where fin: "do_truncate_finish g1 it n = (Inr (), g')" and o': "open_file g' it cs"
      and sz: "uint (e_size (entry_get g' (it_entry it))) = n"
      and by': "file_bytes g' cs = file_bytes g1 cs"
      by blast
    have res: "do_truncate g it n = Some (Inr (), g')" using dt True fin by simp
    show "\<exists>r g' cs'. do_truncate g it n = Some (r, g') \<and> open_file g' it cs'
           \<and> file_bytes g' cs' = take (nat s) (file_bytes g cs)
                   @ replicate (CLUSTER_DATA * length cs' - nat s) 0
           \<and> uint (e_size (entry_get g' (it_entry it))) = (case r of Inl e \<Rightarrow> s | Inr _ \<Rightarrow> n)"
      apply (rule exI [of _ "Inr ()"], rule exI [of _ g'], rule exI [of _ cs])
      using res o' sz by' b1 by simp
  next
    case False
    then have pos: "0 < nat alloc" using a0 by simp
    have l1: "loaded g1" using o1 by (simp add: open_file_def)
    from alloc_clusters_result [OF l1 pos]
    consider g2 cs' where "alloc_clusters g1 (nat alloc) True = (Inr (hd cs'), g2)"
        "alloc_done g1 g2 True cs'" "length cs' = nat alloc"
      | g2 where "alloc_clusters g1 (nat alloc) True = (Inl ENOSPC, g2)" "alloc_failed g1 g2"
      by blast
    then show "\<exists>r g' cs'. do_truncate g it n = Some (r, g') \<and> open_file g' it cs'
           \<and> file_bytes g' cs' = take (nat s) (file_bytes g cs)
                   @ replicate (CLUSTER_DATA * length cs' - nat s) 0
           \<and> uint (e_size (entry_get g' (it_entry it))) = (case r of Inl e \<Rightarrow> s | Inr _ \<Rightarrow> n)"
    proof cases
      case 1
      have ne: "cs' \<noteq> []" using 1(3) pos by auto
      have "int (length cs + length cs') = size_to_clusters n"
        using 1(3) a0 by (simp add: alloc_def)
      from grow_linked [OF o1 1(2) ne n0(1) mx this]
      obtain g' where
        fin: "do_truncate_finish
           (case (if cs = [] then None else Some (last cs)) of
              Some q \<Rightarrow> mark_cluster (upd_cluster g2 q (\<lambda>k. k\<lparr>c_next := of_nat (hd cs')\<rparr>)) q
            | None \<Rightarrow> entry_set_cluster g2 (it_entry it) (of_nat (hd cs')))
           it n = (Inr (), g')"
        and o': "open_file g' it (cs @ cs')" and sz: "uint (e_size (entry_get g' (it_entry it))) = n"
        and by': "file_bytes g' (cs @ cs') = file_bytes g1 cs @ replicate (CLUSTER_DATA * length cs') 0"
        by blast
      have ar: "CLUSTER_DATA * length (cs @ cs') - nat s
                  = (CLUSTER_DATA * length cs - nat s) + CLUSTER_DATA * length cs'"
        using sl by (simp add: distrib_left)
      have by'': "file_bytes g' (cs @ cs')
              = take (nat s) (file_bytes g cs)
                  @ replicate (CLUSTER_DATA * length (cs @ cs') - nat s) 0"
        unfolding by' b1 ar replicate_add by simp
      have res: "do_truncate g it n = Some (Inr (), g')" using dt False 1(1) fin by simp
      show ?thesis
        apply (rule exI [of _ "Inr ()"], rule exI [of _ g'], rule exI [of _ "cs @ cs'"])
        using res o' sz by'' by simp
    next
      case 2
      note f = grow_failed [OF o1 2(2)]
      have res: "do_truncate g it n = Some (Inl ENOSPC, g2)" using dt False 2(1) by simp
      have "uint (e_size (entry_get g2 (it_entry it))) = s" using f(2) e1 by (simp add: s_def)
      then show ?thesis
        apply (intro exI [of _ "Inl ENOSPC"] exI [of _ g2] exI [of _ cs])
        using res f(1,3) b1 by simp
    qed
  qed
qed

lemma file_size_int: "int (file_size g it) = uint (e_size (entry_get g (it_entry it)))"
  by (simp add: file_size_def)

lemma open_file_room:
  assumes "open_file g it cs"
  shows "file_size g it \<le> CLUSTER_DATA * length cs"
    and "length (file_bytes g cs) = CLUSTER_DATA * length cs"
proof -
  from assms obtain d i where it: "it_entry it = ClusterEntry d i"
    and ch: "file_chain g (unat (e_cluster (entry_get g (ClusterEntry d i)))) cs 0"
    and len: "int (length cs) = size_to_clusters (uint (e_size (entry_get g (ClusterEntry d i))))"
    by (rule open_fileD)
  have "int (file_size g it) \<le> int CLUSTER_DATA * int (length cs)"
    using size_to_clusters_bounds(2) [of "uint (e_size (entry_get g (ClusterEntry d i)))"] len it
    by (simp add: file_size_def)
  then have "int (file_size g it) \<le> int (CLUSTER_DATA * length cs)" by simp
  then show "file_size g it \<le> CLUSTER_DATA * length cs" by linarith
  show "length (file_bytes g cs) = CLUSTER_DATA * length cs" using file_chain_length [OF ch] .
qed

text \<open>The part of \<open>ghostfs_write\<close> after the file has been grown: the bytes go into the
  chain.\<close>

lemma write_in_place:
  assumes o: "open_file g it cs" and h: "file_holds g it cs f"
    and off: "0 \<le> off" "off + int (length buf) \<le> int (file_size g it)"
  shows "\<exists>r g'. (case cluster_at g (unat (e_cluster (entry_get g (it_entry it))))
                        (nat (off div int CLUSTER_DATA)) of
                   (Inl e, g1) \<Rightarrow> Some (Inl e, g1)
                 | (Inr c, g1) \<Rightarrow>
                     Some (write_loop g1 c buf (nat (off mod int CLUSTER_DATA)) 0)) = Some (r, g')
               \<and> open_file g' it cs \<and> file_size g' it = file_size g it
               \<and> file_holds g' it cs (case r of Inl e \<Rightarrow> f | Inr k \<Rightarrow> overlay f buf (nat off))
               \<and> (\<forall>k. r = Inr k \<longrightarrow> k = length buf)"
proof -
  from o obtain d i where it: "it_entry it = ClusterEntry d i"
    and d: "d \<notin> set cs"
    and ch: "file_chain g (unat (e_cluster (entry_get g (ClusterEntry d i)))) cs 0" "distinct cs"
    by (rule open_fileD)
  define j where "j = nat (off div int CLUSTER_DATA)"
  define u where "u = nat (off mod int CLUSTER_DATA)"
  have u: "u < CLUSTER_DATA" using off(1) by (simp add: u_def CLUSTER_DATA_def)
  have "off = int CLUSTER_DATA * (off div int CLUSTER_DATA) + off mod int CLUSTER_DATA" by simp
  moreover have "0 \<le> off div int CLUSTER_DATA"
    using off(1) by (simp add: CLUSTER_DATA_def pos_imp_zdiv_nonneg_iff)
  moreover have "0 \<le> off mod int CLUSTER_DATA" by (simp add: CLUSTER_DATA_def)
  ultimately have "off = int (CLUSTER_DATA * j + u)" by (simp add: j_def u_def)
  then have no: "nat off = CLUSTER_DATA * j + u" by linarith
  note room = open_file_room [OF o]
  have at: "cluster_at g (unat (e_cluster (entry_get g (it_entry it)))) j
              = (if j < length cs then Inr (cs ! j) else Inl EIO, g)"
    using cluster_at_chain [OF ch(1)] it by simp
  show ?thesis
    unfolding j_def [symmetric] u_def [symmetric]
  proof (cases "j < length cs")
    case False
    show "\<exists>r g'. (case cluster_at g (unat (e_cluster (entry_get g (it_entry it)))) j of
                   (Inl e, g1) \<Rightarrow> Some (Inl e, g1)
                 | (Inr c, g1) \<Rightarrow> Some (write_loop g1 c buf u 0)) = Some (r, g')
               \<and> open_file g' it cs \<and> file_size g' it = file_size g it
               \<and> file_holds g' it cs (case r of Inl e \<Rightarrow> f | Inr k \<Rightarrow> overlay f buf (nat off))
               \<and> (\<forall>k. r = Inr k \<longrightarrow> k = length buf)"
      apply (rule exI [of _ "Inl EIO"], rule exI [of _ g])
      using at False o h by simp
  next
    case True
    define c where "c = cs ! j"
    define P R where "P = file_bytes g (take j cs)" and "R = file_bytes g (drop j cs)"
    have dr: "drop j cs = c # drop (Suc j) cs" using True by (simp add: c_def Cons_nth_drop_Suc)
    have sp: "cs = take j cs @ drop j cs" by simp
    obtain m where chp: "file_chain g (unat (e_cluster (entry_get g (ClusterEntry d i)))) (take j cs) m"
      and chr: "file_chain g m (drop j cs) 0"
      using ch(1) file_chain_append [of g _ "take j cs" "drop j cs" 0] by auto
    have mc: "m = c" using chr dr by simp
    have chr': "file_chain g c (c # drop (Suc j) cs) 0" using chr dr mc by simp
    have dist: "distinct (c # drop (Suc j) cs)" using ch(2) dr by (metis distinct_drop)
    have lP: "length P = CLUSTER_DATA * j"
      using file_chain_length [OF chp] True by (simp add: P_def)
    have B: "file_bytes g cs = P @ R" unfolding P_def R_def by (subst sp) (simp only: file_bytes_simps)
    have lR: "length R = CLUSTER_DATA * (length cs - j)"
      using room(2) lP unfolding B by (simp add: right_diff_distrib')
    have fit: "nat off + length buf \<le> CLUSTER_DATA * length cs"
      using off room(1) by linarith
    have jl: "CLUSTER_DATA * length cs = CLUSTER_DATA * j + CLUSTER_DATA * (length cs - j)"
      using True by (simp add: distrib_left [symmetric])
    have bound: "u + length buf \<le> CLUSTER_DATA * length (c # drop (Suc j) cs)"
    proof -
      have "length (c # drop (Suc j) cs) = length cs - j" using dr [symmetric] by simp
      then show ?thesis using fit no jl by simp
    qed
    from write_loop_chain [OF chr' dist u bound, of 0]
    obtain g' where w: "write_loop g c buf u 0 = (Inr (length buf), g')"
      and t: "touched g g' (set (c # drop (Suc j) cs))"
      and b: "file_bytes g' (c # drop (Suc j) cs)
                = take u (file_bytes g (c # drop (Suc j) cs)) @ buf
                    @ drop (u + length buf) (file_bytes g (c # drop (Suc j) cs))"
      by auto
    have b': "file_bytes g' (drop j cs) = take u R @ buf @ drop (u + length buf) R"
      using b unfolding R_def dr .
    have sub: "set (c # drop (Suc j) cs) \<subseteq> set cs"
      using dr [symmetric] by (simp add: set_drop_subset)
    have dn: "d \<notin> set (c # drop (Suc j) cs)" using d sub by blast
    note o' = open_file_touched [OF o t it dn]
    have sz: "file_size g' it = file_size g it" using o'(2) by (simp add: file_size_def)
    have "set (take j cs) \<inter> set (c # drop (Suc j) cs) = {}"
      using ch(2) dr by (metis append_take_drop_id distinct_append)
    then have p': "file_bytes g' (take j cs) = P"
      unfolding P_def by (rule touched_bytes [OF t])
    have "file_bytes g' cs = file_bytes g' (take j cs) @ file_bytes g' (drop j cs)"
      by (subst sp) (simp only: file_bytes_simps)
    then have B': "file_bytes g' cs = P @ take u R @ buf @ drop (u + length buf) R"
      unfolding p' b' .
    have nth': "file_bytes g' cs ! k
                  = (if nat off \<le> k \<and> k < nat off + length buf then buf ! (k - nat off)
                     else file_bytes g cs ! k)"
      if "k < CLUSTER_DATA * length cs" for k
    proof -
      have uR: "u + length buf \<le> length R" using bound dr [symmetric] lR by simp
      show ?thesis
        unfolding B B' using that lP no uR lR jl
        by (auto simp: nth_append min_def)
    qed
    have hold: "file_holds g' it cs (overlay f buf (nat off))"
      unfolding file_holds_def sz
    proof (intro conjI allI impI)
      fix k assume k: "k < file_size g it"
      then have "k < CLUSTER_DATA * length cs" using room(1) by simp
      from nth' [OF this] show "file_bytes g' cs ! k = overlay f buf (nat off) k"
        using h k by (simp add: overlay_def file_holds_def)
    next
      fix k assume k: "file_size g it \<le> k"
      then have "\<not> k < nat off + length buf" using off by linarith
      then show "overlay f buf (nat off) k = 0"
        using h k by (simp add: overlay_def file_holds_def)
    qed
    show "\<exists>r g'. (case cluster_at g (unat (e_cluster (entry_get g (it_entry it)))) j of
                   (Inl e, g1) \<Rightarrow> Some (Inl e, g1)
                 | (Inr c, g1) \<Rightarrow> Some (write_loop g1 c buf u 0)) = Some (r, g')
               \<and> open_file g' it cs \<and> file_size g' it = file_size g it
               \<and> file_holds g' it cs (case r of Inl e \<Rightarrow> f | Inr k \<Rightarrow> overlay f buf (nat off))
               \<and> (\<forall>k. r = Inr k \<longrightarrow> k = length buf)"
      apply (rule exI [of _ "Inr (length buf)"], rule exI [of _ g'])
      using at True w o'(1) sz hold by (simp add: c_def)
  qed
qed

lemma file_holds_grown:
  assumes o: "open_file g it cs" and h: "file_holds g it cs f"
    and o': "open_file g' it cs'"
    and b: "file_bytes g' cs' = take (file_size g it) (file_bytes g cs)
                                  @ replicate (CLUSTER_DATA * length cs' - file_size g it) 0"
    and sz: "file_size g it \<le> file_size g' it"
  shows "file_holds g' it cs' f"
  unfolding file_holds_def
proof (intro conjI allI impI)
  fix k assume k: "k < file_size g' it"
  note room = open_file_room [OF o] and room' = open_file_room [OF o']
  have kl: "k < CLUSTER_DATA * length cs'" using k room'(1) by simp
  have lt: "length (take (file_size g it) (file_bytes g cs)) = file_size g it"
    using room by simp
  show "file_bytes g' cs' ! k = f k"
  proof (cases "k < file_size g it")
    case True
    then show ?thesis using h lt unfolding b by (simp add: nth_append file_holds_def)
  next
    case False
    then have "f k = 0" using h by (simp add: file_holds_def)
    then show ?thesis using False lt kl unfolding b by (simp add: nth_append)
  qed
next
  fix k assume "file_size g' it \<le> k"
  then show "f k = 0" using h sz by (simp add: file_holds_def)
qed

lemma no_wrap:
  assumes "0 \<le> off" and "off < 2 ^ 63" and "0 \<le> sz" and "\<not> (sz + off) mod 2 ^ 64 < (sz :: int)"
  shows "sz + off < 2 ^ 64"
proof (rule ccontr)
  assume a: "\<not> sz + off < 2 ^ 64"
  have m: "(sz + off) mod 2 ^ 64 < 2 ^ 64" by simp
  show False
  proof (cases "sz < 2 ^ 64")
    case False
    then show ?thesis using m assms(4) by linarith
  next
    case True
    have "(sz + off - 2 ^ 64) mod 2 ^ 64 = sz + off - 2 ^ 64"
      using a True assms by (intro mod_pos_pos_trivial) simp_all
    moreover have "(sz + off - 2 ^ 64) mod 2 ^ 64 = (sz + off) mod (2 ^ 64 :: int)"
      by (simp add: mod_diff_right_eq [symmetric])
    ultimately have "(sz + off) mod 2 ^ 64 = sz + off - 2 ^ 64" by simp
    then show ?thesis using assms by simp
  qed
qed

lemma to_off_t_cases:
  assumes "0 \<le> x" and "x < 2 ^ 64"
  shows "to_off_t x = (if x < 2 ^ 63 then x else x - 2 ^ 64)"
  using assms by (simp add: to_off_t_def Let_def)

text \<open>One call of \<open>ghostfs_write\<close> on an open file.\<close>

lemma ghostfs_write_step:
  assumes o: "open_file g it cs" and h: "file_holds g it cs f" and off: "off < 2 ^ 63"
  shows "\<exists>r g' cs'. ghostfs_write g it buf off = Some (r, g') \<and> open_file g' it cs'
           \<and> file_holds g' it cs' (case r of Inl e \<Rightarrow> f | Inr k \<Rightarrow> overlay f buf (nat off))
           \<and> file_size g it \<le> file_size g' it
           \<and> (\<forall>k. r = Inr k \<longrightarrow> k = length buf \<and> nat off + length buf \<le> file_size g' it)"
proof -
  define sz where "sz = int (length buf)"
  define s where "s = uint (e_size (entry_get g (it_entry it)))"
  have s: "s = int (file_size g it)" by (simp add: s_def file_size_def)
  have fail: "\<exists>r g' cs'. ghostfs_write g it buf off = Some (r, g') \<and> open_file g' it cs'
           \<and> file_holds g' it cs' (case r of Inl e \<Rightarrow> f | Inr k \<Rightarrow> overlay f buf (nat off))
           \<and> file_size g it \<le> file_size g' it
           \<and> (\<forall>k. r = Inr k \<longrightarrow> k = length buf \<and> nat off + length buf \<le> file_size g' it)"
    if "ghostfs_write g it buf off = Some (Inl e, g)" for e
    apply (rule exI [of _ "Inl e"], rule exI [of _ g], rule exI [of _ cs])
    using that o h by simp
  show ?thesis
  proof (cases "off < 0")
    case True
    then have "ghostfs_write g it buf off = Some (Inl EINVAL, g)"
      by (simp add: ghostfs_write_def Let_def)
    then show ?thesis by (rule fail)
  next
    case nonneg: False
    show ?thesis
    proof (cases "(sz + off) mod 2 ^ 64 < sz")
      case True
      then have "ghostfs_write g it buf off = Some (Inl EOVERFLOW, g)"
        using nonneg by (simp add: ghostfs_write_def Let_def sz_def)
      then show ?thesis by (rule fail)
    next
      case False
      have sum: "sz + off < 2 ^ 64" "0 \<le> sz + off"
        using no_wrap [OF _ off _ False] nonneg by (simp_all add: sz_def)
      then have md: "(sz + off) mod 2 ^ 64 = sz + off" "(off + sz) mod 2 ^ 64 = off + sz"
        by (simp_all add: add.commute)
      have gw: "ghostfs_write g it buf off =
                  Option.bind
                    (if s < off + sz then do_truncate g it (to_off_t (off + sz))
                     else Some (Inr (), g))
                    (\<lambda>r. case r of
                       (Inl e, g) \<Rightarrow> Some (Inl e, g)
                     | (Inr _, g) \<Rightarrow>
                         (case cluster_at g (unat (e_cluster (entry_get g (it_entry it))))
                                 (nat (off div int CLUSTER_DATA)) of
                            (Inl e, g1) \<Rightarrow> Some (Inl e, g1)
                          | (Inr c, g1) \<Rightarrow>
                              Some (write_loop g1 c buf (nat (off mod int CLUSTER_DATA)) 0)))"
        using nonneg False md
        by (simp add: ghostfs_write_def Let_def sz_def [symmetric] s_def [symmetric])
      show ?thesis
      proof (cases "s < off + sz")
        case fits: False
        have in_file: "off + int (length buf) \<le> int (file_size g it)"
          using fits s by (simp add: sz_def)
        then have nb: "nat off + length buf \<le> file_size g it" using nonneg by linarith
        from write_in_place [OF o h _ in_file, of ] nonneg
        obtain r g' where
          "(case cluster_at g (unat (e_cluster (entry_get g (it_entry it))))
                        (nat (off div int CLUSTER_DATA)) of
                   (Inl e, g1) \<Rightarrow> Some (Inl e, g1)
                 | (Inr c, g1) \<Rightarrow>
                     Some (write_loop g1 c buf (nat (off mod int CLUSTER_DATA)) 0)) = Some (r, g')"
          "open_file g' it cs"
          "file_holds g' it cs (case r of Inl e \<Rightarrow> f | Inr k \<Rightarrow> overlay f buf (nat off))"
          "\<forall>k. r = Inr k \<longrightarrow> k = length buf"
          "file_size g' it = file_size g it"
          by auto
        then show ?thesis
          apply (intro exI [of _ r] exI [of _ g'] exI [of _ cs])
          using gw fits nb by auto
      next
        case grow: True
        show ?thesis
        proof (cases "off + sz < 2 ^ 63")
          case False
          then have "to_off_t (off + sz) < 0"
            using sum to_off_t_cases [of "off + sz"] by (simp add: add.commute)
          then have "do_truncate g it (to_off_t (off + sz)) = Some (Inl EINVAL, g)"
            by (simp add: do_truncate_def)
          then have "ghostfs_write g it buf off = Some (Inl EINVAL, g)"
            using gw grow by simp
          then show ?thesis by (rule fail)
        next
          case True
          then have tn: "to_off_t (off + sz) = off + sz"
            using sum to_off_t_cases [of "off + sz"] by (simp add: add.commute)
          show ?thesis
          proof (cases "off + sz \<le> FILESIZE_MAX")
            case False
            then have "do_truncate g it (off + sz) = Some (Inl EFBIG, g)"
              using sum by (simp add: do_truncate_def add.commute)
            then have "ghostfs_write g it buf off = Some (Inl EFBIG, g)"
              using gw grow tn by simp
            then show ?thesis by (rule fail)
          next
            case True
            have gt: "uint (e_size (entry_get g (it_entry it))) < off + sz"
              using grow by (simp add: s_def)
            from do_truncate_grows [OF o gt True]
            obtain r1 g1 cs1 where dt: "do_truncate g it (off + sz) = Some (r1, g1)"
              and o1: "open_file g1 it cs1"
              and b1: "file_bytes g1 cs1
                         = take (nat s) (file_bytes g cs)
                             @ replicate (CLUSTER_DATA * length cs1 - nat s) 0"
              and s1: "uint (e_size (entry_get g1 (it_entry it)))
                         = (case r1 of Inl e \<Rightarrow> s | Inr _ \<Rightarrow> off + sz)"
              unfolding s_def by blast
            have ns: "nat s = file_size g it" using s by simp
            have le: "file_size g it \<le> file_size g1 it"
              using s1 grow s by (cases r1) (simp_all add: file_size_int [symmetric])
            have h1: "file_holds g1 it cs1 f"
              using file_holds_grown [OF o h o1 _ le] b1 ns by simp
            show ?thesis
            proof (cases r1)
              case (Inl e)
              then have "ghostfs_write g it buf off = Some (Inl e, g1)"
                using gw grow tn dt by simp
              then show ?thesis
                apply (intro exI [of _ "Inl e"] exI [of _ g1] exI [of _ cs1])
                using o1 h1 le by simp
            next
              case (Inr x)
              then have "int (file_size g1 it) = off + sz" using s1 by (simp add: file_size_int)
              then have in_file: "off + int (length buf) \<le> int (file_size g1 it)"
                by (simp add: sz_def)
              then have nb: "nat off + length buf \<le> file_size g1 it" using nonneg by linarith
              from write_in_place [OF o1 h1 _ in_file] nonneg
              obtain r g' where
                "(case cluster_at g1 (unat (e_cluster (entry_get g1 (it_entry it))))
                              (nat (off div int CLUSTER_DATA)) of
                         (Inl e, g2) \<Rightarrow> Some (Inl e, g2)
                       | (Inr c, g2) \<Rightarrow>
                           Some (write_loop g2 c buf (nat (off mod int CLUSTER_DATA)) 0)) = Some (r, g')"
                "open_file g' it cs1"
                "file_holds g' it cs1 (case r of Inl e \<Rightarrow> f | Inr k \<Rightarrow> overlay f buf (nat off))"
                "\<forall>k. r = Inr k \<longrightarrow> k = length buf"
                "file_size g' it = file_size g1 it"
                by auto
              then show ?thesis
                apply (intro exI [of _ r] exI [of _ g'] exI [of _ cs1])
                using gw grow tn dt Inr nb le by auto
            qed
          qed
        qed
      qed
    qed
  qed
qed

lemma ghostfs_read_file:
  assumes o: "open_file g it cs"
  shows "ghostfs_read g it (file_size g it) 0 = (Inr (take (file_size g it) (file_bytes g cs)), g)"
proof -
  from o obtain d i where it: "it_entry it = ClusterEntry d i"
    and ch: "file_chain g (unat (e_cluster (entry_get g (ClusterEntry d i)))) cs 0"
    and len: "int (length cs) = size_to_clusters (uint (e_size (entry_get g (ClusterEntry d i))))"
    by (rule open_fileD)
  define n where "n = file_size g it"
  have u: "uint (e_size (entry_get g (it_entry it))) = int n" by (simp add: n_def file_size_def)
  have "int n < 2 ^ 32"
    using uint_bounded [of "e_size (entry_get g (it_entry it))"] u by simp
  then have md: "int n mod 2 ^ 64 = int n" by (intro mod_pos_pos_trivial) simp_all
  note room = open_file_room [OF o]
  show ?thesis
    unfolding n_def [symmetric]
  proof (cases "n = 0")
    case True
    then show "ghostfs_read g it n 0 = (Inr (take n (file_bytes g cs)), g)"
      using u md by (simp add: ghostfs_read_def Let_def)
  next
    case False
    have "cs \<noteq> []" using room(1) False by (auto simp: n_def)
    then obtain c rest where cs: "cs = c # rest" by (cases cs) auto
    have chc: "file_chain g c (c # rest) 0" using ch cs by simp
    have at: "cluster_at g (unat (e_cluster (entry_get g (it_entry it)))) 0 = (Inr c, g)"
      using cluster_at_chain [OF ch, of 0] it cs by simp
    have "read_loop g c n 0 [] = (Inr ([] @ take n (file_bytes g (c # rest))), g)"
      using False room(1) cs by (intro read_loop_chain [OF chc]) (simp_all add: n_def)
    then show "ghostfs_read g it n 0 = (Inr (take n (file_bytes g cs)), g)"
      using False u md at cs by (simp add: ghostfs_read_def Let_def)
  qed
qed

lemma file_holds_read:
  assumes o: "open_file g it cs" and h: "file_holds g it cs f"
  shows "ghostfs_read g it (file_size g it) 0 = (Inr (map f [0..<file_size g it]), g)"
proof -
  note room = open_file_room [OF o]
  have "take (file_size g it) (file_bytes g cs) = map f [0..<file_size g it]"
    using room h by (intro nth_equalityI) (simp_all add: file_holds_def)
  then show ?thesis using ghostfs_read_file [OF o] by simp
qed

lemma fresh_file_open:
  assumes "fresh_file g it"
  shows "open_file g it []" and "file_holds g it [] (\<lambda>_. 0)"
proof -
  show "open_file g it []"
    using assms
    by (cases "it_entry it")
       (simp_all add: fresh_file_def open_file_def dir_entry_is_directory_def size_to_clusters_zero)
  show "file_holds g it [] (\<lambda>_. 0)"
    using assms by (simp add: file_holds_def file_size_def fresh_file_def)
qed

lemma run_writes_file:
  assumes "open_file g it cs" and "file_holds g it cs f" and "\<forall>(buf, off) \<in> set ws. off < 2 ^ 63"
  shows "\<exists>rs g' cs'. run_writes g it ws = Some (rs, g') \<and> length rs = length ws
           \<and> open_file g' it cs' \<and> file_holds g' it cs' (lww (zip ws rs) f)
           \<and> file_size g it \<le> file_size g' it
           \<and> (\<forall>j < length ws. \<forall>k. rs ! j = Inr k \<longrightarrow>
                  k = length (fst (ws ! j))
                  \<and> nat (snd (ws ! j)) + length (fst (ws ! j)) \<le> file_size g' it)"
  using assms
proof (induction ws arbitrary: g cs f)
  case Nil
  then show ?case by auto
next
  case (Cons w ws)
  obtain buf off where w: "w = (buf, off)" by (cases w)
  have off: "off < 2 ^ 63" using Cons.prems(3) w by simp
  from ghostfs_write_step [OF Cons.prems(1,2) off, of buf]
  obtain r g1 cs1 where st: "ghostfs_write g it buf off = Some (r, g1)"
    and o1: "open_file g1 it cs1"
    and h1: "file_holds g1 it cs1 (case r of Inl e \<Rightarrow> f | Inr k \<Rightarrow> overlay f buf (nat off))"
    and s1: "file_size g it \<le> file_size g1 it"
    and k1: "\<forall>k. r = Inr k \<longrightarrow> k = length buf \<and> nat off + length buf \<le> file_size g1 it"
    by blast
  have rest: "\<forall>(buf, off) \<in> set ws. off < 2 ^ 63" using Cons.prems(3) by simp
  from Cons.IH [OF o1 h1 rest]
  obtain rs g' cs' where run: "run_writes g1 it ws = Some (rs, g')" and l: "length rs = length ws"
    and o': "open_file g' it cs'"
    and h': "file_holds g' it cs'
               (lww (zip ws rs) (case r of Inl e \<Rightarrow> f | Inr k \<Rightarrow> overlay f buf (nat off)))"
    and s': "file_size g1 it \<le> file_size g' it"
    and k': "\<forall>j < length ws. \<forall>k. rs ! j = Inr k \<longrightarrow>
               k = length (fst (ws ! j))
               \<and> nat (snd (ws ! j)) + length (fst (ws ! j)) \<le> file_size g' it"
    by blast
  have A: "run_writes g it (w # ws) = Some (r # rs, g')" using st run w by simp
  have B: "file_holds g' it cs' (lww (zip (w # ws) (r # rs)) f)" using h' w by simp
  have C: "file_size g it \<le> file_size g' it" using s1 s' by simp
  have D: "\<forall>j < length (w # ws). \<forall>k. (r # rs) ! j = Inr k \<longrightarrow>
                   k = length (fst ((w # ws) ! j))
                   \<and> nat (snd ((w # ws) ! j)) + length (fst ((w # ws) ! j)) \<le> file_size g' it"
  proof (intro allI impI)
    fix j k assume j: "j < length (w # ws)" and r: "(r # rs) ! j = Inr k"
    show "k = length (fst ((w # ws) ! j))
          \<and> nat (snd ((w # ws) ! j)) + length (fst ((w # ws) ! j)) \<le> file_size g' it"
    proof (cases j)
      case 0
      then have "r = Inr k" using r by simp
      then have "k = length buf" "nat off + length buf \<le> file_size g1 it" using k1 by simp_all
      then show ?thesis using 0 w s' by simp
    next
      case (Suc i)
      then show ?thesis using k' [rule_format, of i k] j r by simp
    qed
  qed
  have L: "length (r # rs) = length (w # ws)" using l by simp
  show ?case
    apply (rule exI [of _ "r # rs"], rule exI [of _ g'], rule exI [of _ cs'])
    apply (intro conjI)
         apply (rule A)
        apply (rule L)
       apply (rule o')
      apply (rule B)
     apply (rule C)
    apply (rule D)
    done
qed

text \<open>
  Where the directory cluster that holds the entry is in use, the writes are read back. On
  a file as \<open>create_entry\<close> leaves it, any sequence of \<open>ghostfs_write\<close> calls with offsets in
  the range of \<^verbatim>\<open>off_t\<close> returns; a call that succeeds returns the length of its buffer
  and leaves the file at least as long as the end of what it wrote; and a following
  \<open>ghostfs_read\<close> at offset 0 with the file's size as length returns the bytes of the
  reference: the zero file with the successful writes applied in order, the last writer
  of a byte winning.
\<close>

lemma read_returns_writes:
  assumes "fresh_file g it" and "\<forall>(buf, off) \<in> set ws. off < 2 ^ 63"
  shows "\<exists>rs g'. run_writes g it ws = Some (rs, g') \<and> length rs = length ws
           \<and> (\<forall>j < length ws. \<forall>k. rs ! j = Inr k \<longrightarrow>
                  k = length (fst (ws ! j))
                  \<and> nat (snd (ws ! j)) + length (fst (ws ! j)) \<le> file_size g' it)
           \<and> fst (ghostfs_read g' it (file_size g' it) 0)
               = Inr (map (lww (zip ws rs) (\<lambda>_. 0)) [0..<file_size g' it])"
proof -
  note f = fresh_file_open [OF assms(1)]
  from run_writes_file [OF f assms(2)]
  obtain rs g' cs' where "run_writes g it ws = Some (rs, g')" "length rs = length ws"
    "open_file g' it cs'" "file_holds g' it cs' (lww (zip ws rs) (\<lambda>_. 0))"
    "\<forall>j < length ws. \<forall>k. rs ! j = Inr k \<longrightarrow>
        k = length (fst (ws ! j))
        \<and> nat (snd (ws ! j)) + length (fst (ws ! j)) \<le> file_size g' it"
    by blast
  then show ?thesis using file_holds_read [of g' it cs'] by auto
qed

text \<open>What \<open>create_entry\<close> stores for a file is a fresh file.\<close>

lemma create_entry_store_fresh:
  assumes l: "loaded g" and it: "it_entry it = ClusterEntry d i" "it_cluster it = d"
    and d: "cached g d" "d \<notin> free_set g" "slot_in_cluster g (ClusterEntry d i)"
    and n: "strlen name \<le> FILENAME_SIZE - 1"
  shows "fresh_file (snd (create_entry_store g it name False 0)) it"
proof -
  let ?p = "ClusterEntry d i"
  let ?g1 = "entry_write g ?p 0 (strcpy_bytes name)"
  let ?g2 = "dir_entry_set_size ?g1 ?p 0 False"
  let ?g3 = "entry_set_cluster ?g2 ?p (of_nat 0)"
  let ?g4 = "mark_cluster ?g3 d"
  have ln: "0 + length (strcpy_bytes name) \<le> DIR_ENTRY_SIZE"
    using n by (simp add: strcpy_bytes_def strlen_def consts_defs)
  have t1: "touched g ?g1 {d}" using d ln by (intro touched_entry_write)
  have s1: "slot_in_cluster ?g1 ?p" and c1: "cached ?g1 d"
    using touched_slot [OF t1] t1 d by (simp_all add: touched_def)
  have t2: "touched ?g1 ?g2 {d}"
    unfolding dir_entry_set_size_def Let_def
    using s1 c1 by (intro touched_entry_write) (simp_all add: bytes_of_u32_def consts_defs)
  have s2: "slot_in_cluster ?g2 ?p" and c2: "cached ?g2 d"
    using touched_slot [OF t2] t2 s1 c1 by (simp_all add: touched_def)
  have t3: "touched ?g2 ?g3 {d}"
    unfolding entry_set_cluster_def
    using s2 c2 by (intro touched_entry_write) (simp_all add: bytes_of_u16_def consts_defs)
  have c3: "cached ?g3 d" using t3 c2 by (simp add: touched_def)
  have t4: "touched ?g3 ?g4 {d}" using c3 by (rule touched_mark)
  have t12: "touched g ?g2 {d}" by (rule touched_trans [OF t1 t2]) simp
  have t13: "touched g ?g3 {d}" by (rule touched_trans [OF t12 t3]) simp
  have t: "touched g ?g4 {d}" by (rule touched_trans [OF t13 t4]) simp
  have e2: "e_size (entry_get ?g2 ?p) = 0"
    using dir_entry_set_size_fields(1) [OF s1, of 0] by simp
  have e3: "e_size (entry_get ?g3 ?p) = 0" "e_cluster (entry_get ?g3 ?p) = 0"
    using entry_set_cluster_fields [OF s2, of 0] e2 by simp_all
  have "fresh_file ?g4 it"
    unfolding fresh_file_def
    using it e3 t d touched_loaded [OF t l] touched_free_set [OF t] touched_slot [OF t]
    by (simp add: touched_def)
  then show ?thesis using it by (simp add: create_entry_store_def Let_def)
qed

lemma cached_mk2 [simp]: "cached (mk2 a b n) i \<longleftrightarrow> i = 0 \<or> i = 1"
  by (auto simp: cached_def mk2_def)

lemma created_a_fresh: "\<exists>it g. created_a = Some (it, g) \<and> fresh_file g it"
proof -
  have "map_option (\<lambda>(it, g). (it, hdr_cluster_count g, cached g 0, cached g 1,
                              length (c_data (cl g 0)),
                              e_size (entry_get g (ClusterEntry 0 0)),
                              e_cluster (entry_get g (ClusterEntry 0 0)))) created_a
          = Some (iter_at 0 0, 2, True, True, CLUSTER_DATA, 0, 0)"
    unfolding created_a_def by (simp add: exec_all iter_at_def)
  then obtain it g where c: "created_a = Some (it, g)" and i: "it = iter_at 0 0"
    and g: "hdr_cluster_count g = 2" "cached g 0" "cached g 1"
      "length (c_data (cl g 0)) = CLUSTER_DATA"
      "e_size (entry_get g (ClusterEntry 0 0)) = 0" "e_cluster (entry_get g (ClusterEntry 0 0)) = 0"
    by auto
  have "loaded g"
    unfolding loaded_def
  proof (intro allI impI)
    fix j assume "1 \<le> j \<and> j < unat (hdr_cluster_count g)"
    then have "j = 1" using g(1) by simp
    then show "cached g j" using g(3) by simp
  qed
  then have "fresh_file g it"
    using i g by (simp add: fresh_file_def free_set_def slot_in_cluster_def consts_defs)
  then show ?thesis using c by blast
qed

lemma cluster_get_mk2_out:
  "2 \<le> k \<Longrightarrow> cluster_get (mk2 a b n) k = (Inl ERANGE, mk2 a b n)"
  by (simp add: cluster_get_def mk2_def)

lemma read_back_example:
  "Option.bind created_a
     (\<lambda>(it, g). map_option (\<lambda>(rs, g'). (rs, file_size g' it,
                                          fst (ghostfs_read g' it (file_size g' it) 0)))
                   (run_writes g it [(str ''hello'', 0), (str ''XY'', 3)]))
   = Some ([Inr 5, Inr 2], 5, Inr (str ''helXY''))"
  unfolding created_a_def by (simp add: exec_all file_size_def)

text \<open>
  C1 (the code at the failing input). On the two-cluster filesystem: \<open>/a\<close> is created,
  written and truncated to size 0, which frees cluster 1 and leaves it in the entry;
  \<open>mkdir /d\<close> takes cluster 1 for the directory; \<open>unlink /a\<close> frees cluster 1 a second
  time through the stale entry. The file \<open>/d/f\<close> is then created and opened, and only
  written to: the write of \<open>hello\<close> at offset 56 returns 5, but \<open>alloc_clusters\<close> has handed
  the directory's own cluster to the file and zeroed it, and the copy has landed on the
  entry's size and cluster fields. The size is 1819043176, the first cluster 111, and
  the read at offset 0 with the file's size as length fails with \<open>ERANGE\<close> instead of
  returning the written bytes.
\<close>

theorem write_into_reused_directory_cluster:
  "run_reused_dir_cluster = Some (Inr 5, 1819043176, 111, Inl ERANGE)"
  unfolding run_reused_dir_cluster_def after_create_write_def
  by (simp add: exec_all file_size_def entry_get_def entry_write_def cluster_get_mk2_out)

end
